theory Spec2Isabelle
  imports
    Main
    "HOL-Library.Char_ord"
    "HOL-Library.List_Lexorder"
    "HOL-Library.Multiset"
begin

section \<open>Modules, dependency records and the host's object graph\<close>

text \<open>
  A webpack module is an object compared by identity (\<open>depModule === m\<close>, keys of the
  \<open>idOf\<close> Map), so a module is a handle into a store of module objects.  Of a module the
  plugin reads \<open>resource\<close>, \<open>rootModule\<close>, \<open>originalModule\<close> and \<open>dependencies\<close>; of a
  dependency record it reads the constructor name, \<open>weak\<close> and the module it resolves to
  (\<open>moduleGraph.getModule(dep)\<close> in webpack 5, \<open>dep.module\<close> in webpack 4).  A \<open>null\<close>
  entry of a list is \<open>None\<close>.
\<close>

type_synonym handle = nat

record dependency =
  selfReference :: bool
  weak :: bool
  depModule :: "handle option"

record module =
  resource :: "string option"
  rootModule :: "handle option"
  originalModule :: "handle option"
  dependencies :: "dependency option list"

type_synonym heap = "handle \<Rightarrow> module"

text \<open>JavaScript truthiness of an optional string: \<open>undefined\<close> and \<open>''\<close> are falsy.\<close>

definition truthy :: "string option \<Rightarrow> bool" where
  "truthy r = (case r of None \<Rightarrow> False | Some s \<Rightarrow> s \<noteq> [])"

text \<open>\<open>x && x.resource\<close>, when it is truthy, for an optional module \<open>x\<close>.\<close>

definition resourceOf :: "heap \<Rightarrow> handle option \<Rightarrow> string option" where
  "resourceOf h x =
     (case x of None \<Rightarrow> None
      | Some m \<Rightarrow> if truthy (resource (h m)) then resource (h m) else None)"

definition getResource :: "heap \<Rightarrow> handle \<Rightarrow> string option" where
  "getResource h m =
     (case resourceOf h (Some m) of Some r \<Rightarrow> Some r
      | None \<Rightarrow>
        (case resourceOf h (rootModule (h m)) of Some r \<Rightarrow> Some r
         | None \<Rightarrow> resourceOf h (originalModule (h m))))"

section \<open>Graph builder\<close>

text \<open>The sort key of the comparator: \<open>getResource(a) || ''\<close>.\<close>

definition resourceKey :: "heap \<Rightarrow> handle \<Rightarrow> string" where
  "resourceKey h m = (case getResource h m of None \<Rightarrow> [] | Some r \<Rightarrow> r)"

text \<open>
  \<open>for (const m of modules) if (m) list.push(m)\<close>, then \<open>list.sort\<close> with a comparator
  on the keys.  \<open>Array.prototype.sort\<close> is stable (ECMAScript 2019), and strings compare
  lexicographically by code unit, which is the order of \<open>List_Lexorder\<close> on characters.
\<close>

definition createSortedModuleList :: "heap \<Rightarrow> handle option list \<Rightarrow> handle list" where
  "createSortedModuleList h modules =
     sort_key (resourceKey h) (List.map_filter (\<lambda>m. m) modules)"

text \<open>\<open>for (let i = 0; i < modList.length; i++) idOf.set(modList[i], i)\<close>\<close>

definition idOf :: "handle list \<Rightarrow> handle \<rightharpoonup> nat" where
  "idOf modList = fold (\<lambda>i f. f(modList ! i \<mapsto> i)) [0..<length modList] Map.empty"

text \<open>One round of the loop of \<open>getDeps\<close>: the module pushed for a raw record, if any.\<close>

definition keptDependency :: "heap \<Rightarrow> bool \<Rightarrow> handle \<Rightarrow> dependency option \<Rightarrow> handle option" where
  "keptDependency h allowAsync m dep =
     (case dep of None \<Rightarrow> None
      | Some d \<Rightarrow>
          if selfReference d then None
          else if allowAsync \<and> weak d then None
          else (case depModule d of None \<Rightarrow> None
                | Some t \<Rightarrow>
                    if getResource h t = None then None
                    else if t = m then None
                    else Some t))"

definition getDeps :: "heap \<Rightarrow> bool \<Rightarrow> handle \<Rightarrow> handle list" where
  "getDeps h allowAsync m = List.map_filter (keptDependency h allowAsync m) (dependencies (h m))"

text \<open>
  The adjacency build: \<open>adj[i]\<close> receives \<open>idOf.get(dep)\<close> for every kept dependency
  whose module has an index (\<open>if (j == null) continue\<close>).
\<close>

definition buildAdjacencyList :: "heap \<Rightarrow> bool \<Rightarrow> handle list \<Rightarrow> nat list list" where
  "buildAdjacencyList h allowAsync modList =
     map (\<lambda>i. List.map_filter (idOf modList) (getDeps h allowAsync (modList ! i)))
       [0..<length modList]"

section \<open>SCC engine\<close>

text \<open>
  The state of the Tarjan pass of \<open>src/index.js\<close>: the counter \<open>index\<close>, the arrays
  \<open>idx\<close>, \<open>low\<close>, \<open>onSt\<close>, \<open>sccId\<close> (of length \<open>N\<close>), the traversal stack \<open>st\<close> and
  the list of components \<open>sccs\<close>.  Numbers are JavaScript numbers holding integers of
  small size (at most \<open>N\<close>), so they are \<open>int\<close>.  The stack \<open>st\<close> is kept with its top at
  the head of the list: \<open>st.push(v)\<close> is \<open>v # st\<close>, \<open>st.pop()\<close> takes the head.
\<close>

record tarjan_state =
  index :: int
  idx :: "int list"
  low :: "int list"
  onSt :: "bool list"
  sccId :: "int list"
  st :: "nat list"
  sccs :: "nat list list"

text \<open>
  The loop over \<open>edges = adj[v]\<close> inside \<open>strongconnect(v)\<close>; \<open>sc\<close> is the recursive
  call.  A read \<open>idx[w]\<close> or \<open>onSt[w]\<close> beyond the array is \<open>undefined\<close> in JavaScript:
  it is neither \<open>-1\<close> nor truthy, so such a \<open>w\<close> is passed over.
\<close>

primrec strongconnect_edges ::
  "(nat \<Rightarrow> tarjan_state \<Rightarrow> tarjan_state option) \<Rightarrow> nat \<Rightarrow> nat list \<Rightarrow> tarjan_state
     \<Rightarrow> tarjan_state option" where
  "strongconnect_edges sc v [] s = Some s"
| "strongconnect_edges sc v (w # ws) s =
     (if w < length (idx s) \<and> idx s ! w = - 1 then
        (case sc w s of None \<Rightarrow> None
         | Some s' \<Rightarrow>
             strongconnect_edges sc v ws
               (s'\<lparr>low := (low s')[v := (if low s' ! v < low s' ! w then low s' ! v else low s' ! w)]\<rparr>))
      else if w < length (onSt s) \<and> onSt s ! w then
        strongconnect_edges sc v ws
          (s\<lparr>low := (low s)[v := (if low s ! v < idx s ! w then low s ! v else idx s ! w)]\<rparr>)
      else strongconnect_edges sc v ws s)"

text \<open>
  The \<open>do { w = st.pop(); ... } while (w !== v)\<close> loop, run on the stack \<open>stk\<close> with the
  members \<open>cmp\<close> collected so far.  On an empty stack \<open>st.pop()\<close> is \<open>undefined\<close>, which
  is never \<open>v\<close>: the loop does not end, and the result is \<open>None\<close>.
\<close>

primrec strongconnect_pop ::
  "nat \<Rightarrow> nat list \<Rightarrow> nat list \<Rightarrow> tarjan_state \<Rightarrow> (nat list \<times> tarjan_state) option" where
  "strongconnect_pop v [] cmp s = None"
| "strongconnect_pop v (w # rest) cmp s =
     (let s' = s\<lparr>st := rest, onSt := (onSt s)[w := False],
                 sccId := (sccId s)[w := int (length (sccs s))]\<rparr>
      in if w = v then Some (cmp @ [w], s') else strongconnect_pop v rest (cmp @ [w]) s')"

text \<open>
  \<open>strongconnect(v)\<close>.  The function calls itself, once for every tree edge; the first
  argument bounds the number of nested activations (the depth of the call stack), and a
  call that would exceed it has no result.
\<close>

primrec strongconnect ::
  "nat \<Rightarrow> nat list list \<Rightarrow> nat \<Rightarrow> tarjan_state \<Rightarrow> tarjan_state option" where
  "strongconnect 0 adj v s = None"
| "strongconnect (Suc d) adj v s =
     (let s1 = s\<lparr>idx := (idx s)[v := index s], low := (low s)[v := index s],
                 index := index s + 1, st := v # st s, onSt := (onSt s)[v := True]\<rparr>
      in case strongconnect_edges (strongconnect d adj) v (adj ! v) s1 of
           None \<Rightarrow> None
         | Some s2 \<Rightarrow>
             if low s2 ! v = idx s2 ! v then
               (case strongconnect_pop v (st s2) [] s2 of
                  None \<Rightarrow> None
                | Some (cmp, s3) \<Rightarrow> Some (s3\<lparr>sccs := sccs s3 @ [cmp]\<rparr>))
             else Some s2)"

definition tarjan_init :: "nat \<Rightarrow> tarjan_state" where
  "tarjan_init N =
     \<lparr>index = 0, idx = replicate N (- 1), low = replicate N 0, onSt = replicate N False,
      sccId = replicate N (- 1), st = [], sccs = []\<rparr>"

text \<open>\<open>for (let v = 0; v < N; v++) if (idx[v] === -1) strongconnect(v)\<close>\<close>

primrec tarjan_roots ::
  "(nat \<Rightarrow> tarjan_state \<Rightarrow> tarjan_state option) \<Rightarrow> nat list \<Rightarrow> tarjan_state
     \<Rightarrow> tarjan_state option" where
  "tarjan_roots sc [] s = Some s"
| "tarjan_roots sc (v # vs) s =
     (if idx s ! v = - 1 then
        (case sc v s of None \<Rightarrow> None | Some s' \<Rightarrow> tarjan_roots sc vs s')
      else tarjan_roots sc vs s)"

definition tarjan :: "nat \<Rightarrow> nat list list \<Rightarrow> tarjan_state option" where
  "tarjan d adj =
     tarjan_roots (strongconnect d adj) [0..<length adj] (tarjan_init (length adj))"

text \<open>
  The refactored copy (\<open>computeStronglyConnectedComponents\<close>) keeps no \<open>sccId\<close> array,
  takes the minimum with \<open>Math.min\<close> and pops with
  \<open>while (stack.length) { ...; if (w === v) break; }\<close>.  It is written on the same record
  (its \<open>onStack\<close> and \<open>stack\<close> are the fields \<open>onSt\<close> and \<open>st\<close>) and leaves \<open>sccId\<close> alone.
\<close>

primrec strongConnect_edges ::
  "(nat \<Rightarrow> tarjan_state \<Rightarrow> tarjan_state option) \<Rightarrow> nat \<Rightarrow> nat list \<Rightarrow> tarjan_state
     \<Rightarrow> tarjan_state option" where
  "strongConnect_edges sc v [] s = Some s"
| "strongConnect_edges sc v (w # ws) s =
     (if w < length (idx s) \<and> idx s ! w = - 1 then
        (case sc w s of None \<Rightarrow> None
         | Some s' \<Rightarrow>
             strongConnect_edges sc v ws (s'\<lparr>low := (low s')[v := min (low s' ! v) (low s' ! w)]\<rparr>))
      else if w < length (onSt s) \<and> onSt s ! w then
        strongConnect_edges sc v ws (s\<lparr>low := (low s)[v := min (low s ! v) (idx s ! w)]\<rparr>)
      else strongConnect_edges sc v ws s)"

primrec strongConnect_pop ::
  "nat \<Rightarrow> nat list \<Rightarrow> nat list \<Rightarrow> tarjan_state \<Rightarrow> nat list \<times> tarjan_state" where
  "strongConnect_pop v [] cmp s = (cmp, s)"
| "strongConnect_pop v (w # rest) cmp s =
     (let s' = s\<lparr>st := rest, onSt := (onSt s)[w := False]\<rparr>
      in if w = v then (cmp @ [w], s') else strongConnect_pop v rest (cmp @ [w]) s')"

primrec strongConnect ::
  "nat \<Rightarrow> nat list list \<Rightarrow> nat \<Rightarrow> tarjan_state \<Rightarrow> tarjan_state option" where
  "strongConnect 0 adj v s = None"
| "strongConnect (Suc d) adj v s =
     (let s1 = s\<lparr>idx := (idx s)[v := index s], low := (low s)[v := index s],
                 index := index s + 1, st := v # st s, onSt := (onSt s)[v := True]\<rparr>
      in case strongConnect_edges (strongConnect d adj) v (adj ! v) s1 of
           None \<Rightarrow> None
         | Some s2 \<Rightarrow>
             if low s2 ! v = idx s2 ! v then
               (case strongConnect_pop v (st s2) [] s2 of
                  (cmp, s3) \<Rightarrow> Some (s3\<lparr>sccs := sccs s3 @ [cmp]\<rparr>))
             else Some s2)"

definition computeStronglyConnectedComponents :: "nat \<Rightarrow> nat list list \<Rightarrow> nat list list option" where
  "computeStronglyConnectedComponents d adj =
     map_option sccs
       (tarjan_roots (strongConnect d adj) [0..<length adj]
          ((tarjan_init (length adj))\<lparr>sccId := []\<rparr>))"

section \<open>Component classifier\<close>

text \<open>The inner loop: is there a member whose module has no resource?\<close>

primrec anyMissingResource :: "(nat \<Rightarrow> string option) \<Rightarrow> nat list \<Rightarrow> bool" where
  "anyMissingResource res [] = False"
| "anyMissingResource res (i # is) = (if res i = None then True else anyMissingResource res is)"

definition flagInvalidComponents :: "(nat \<Rightarrow> string option) \<Rightarrow> nat list list \<Rightarrow> bool list" where
  "flagInvalidComponents res comps =
     map (\<lambda>cmp. if length cmp \<le> 1 then True else anyMissingResource res cmp) comps"

section \<open>Cycle extractor\<close>

text \<open>
  The closure \<open>dfs\<close> of \<open>findCycleFrom\<close> works on the set \<open>seen\<close> and on the array
  \<open>stack\<close>, kept here with its top at the head.
\<close>

record dfs_state =
  seen :: "nat set"
  stack :: "nat list"

primrec dfs_edges ::
  "(nat \<Rightarrow> dfs_state \<Rightarrow> (bool \<times> dfs_state) option) \<Rightarrow> nat \<Rightarrow> nat set \<Rightarrow> nat list \<Rightarrow> dfs_state
     \<Rightarrow> (bool \<times> dfs_state) option" where
  "dfs_edges rc start compSet [] s = Some (False, s)"
| "dfs_edges rc start compSet (w # ws) s =
     (if w \<notin> compSet then dfs_edges rc start compSet ws s
      else if w = start \<and> length (stack s) > 1 then Some (True, s)
      else if w \<notin> seen s then
        (case rc w s of None \<Rightarrow> None
         | Some (found, s') \<Rightarrow> if found then Some (True, s') else dfs_edges rc start compSet ws s')
      else dfs_edges rc start compSet ws s)"

text \<open>
  \<open>dfs(u)\<close>, with the bound on nested activations first.  \<open>adj[u]\<close> beyond the array is
  \<open>undefined\<close> and \<open>edges.length\<close> then throws a TypeError: no result.
\<close>

primrec dfs ::
  "nat \<Rightarrow> nat list list \<Rightarrow> nat \<Rightarrow> nat set \<Rightarrow> nat \<Rightarrow> dfs_state \<Rightarrow> (bool \<times> dfs_state) option" where
  "dfs 0 adj start compSet u s = None"
| "dfs (Suc d) adj start compSet u s =
     (if u \<in> seen s then Some (False, s)
      else if length adj \<le> u then None
      else
        (case dfs_edges (dfs d adj start compSet) start compSet (adj ! u)
                (s\<lparr>seen := insert u (seen s), stack := u # stack s\<rparr>) of
           None \<Rightarrow> None
         | Some (found, s') \<Rightarrow>
             if found then Some (True, s') else Some (False, s'\<lparr>stack := tl (stack s')\<rparr>)))"

text \<open>
  \<open>findCycleFrom(start, compSet)\<close>: the outer \<open>option\<close> is "the call returns", the inner
  one is the returned array or \<open>null\<close>.
\<close>

definition findCycleFrom :: "nat list list \<Rightarrow> nat \<Rightarrow> nat set \<Rightarrow> nat list option option" where
  "findCycleFrom adj start compSet =
     (case dfs (length adj) adj start compSet start \<lparr>seen = {}, stack = []\<rparr> of
        None \<Rightarrow> None
      | Some (found, s) \<Rightarrow> Some (if found then Some (rev (stack s) @ [start]) else None))"

text \<open>The cycle of a start node: \<open>findCycleFrom\<close>, else the two-node fallback, else none.\<close>

definition cycleFrom :: "nat list list \<Rightarrow> nat \<Rightarrow> nat set \<Rightarrow> nat list option option" where
  "cycleFrom adj i compSet =
     (case findCycleFrom adj i compSet of
        None \<Rightarrow> None
      | Some (Some cyc) \<Rightarrow> Some (Some cyc)
      | Some None \<Rightarrow>
          Some (case find (\<lambda>w. w \<in> compSet) (adj ! i) of
                  None \<Rightarrow> None
                | Some nb \<Rightarrow> Some [i, nb, i]))"

section \<open>Reporting\<close>

datatype 'e diagnostic = CycleError string | Thrown 'e

record 'e compilation =
  errors :: "'e diagnostic list"
  warnings :: "'e diagnostic list"

text \<open>
  \<open>onDetected({module, paths, compilation})\<close> may change the compilation and may throw:
  the result is the thrown value, if any, and the compilation it leaves.
\<close>

type_synonym 'e detected = "handle \<Rightarrow> string list \<Rightarrow> 'e compilation \<Rightarrow> 'e option \<times> 'e compilation"

text \<open>
  The options read by the detection pass.  \<open>exclude_test\<close> and \<open>include_test\<close> are
  \<open>options.exclude.test\<close> and \<open>options.include.test\<close> (of regular expressions without the
  \<open>g\<close> or \<open>y\<close> flag, whose \<open>test\<close> keeps no state); \<open>relative\<close> is
  \<open>path.relative(baseDir, \<cdot>)\<close>.
\<close>

record 'e options =
  exclude_test :: "string \<Rightarrow> bool"
  include_test :: "string \<Rightarrow> bool"
  failOnError :: bool
  allowAsyncCycles :: bool
  onDetected :: "'e detected option"
  relative :: "string \<Rightarrow> string"

text \<open>\<open>rel(modR || '')\<close> for every index of the cycle.\<close>

definition relPaths :: "'e options \<Rightarrow> heap \<Rightarrow> handle list \<Rightarrow> nat list \<Rightarrow> string list" where
  "relPaths opts h modList cycleIdx =
     map (\<lambda>p. case getResource h (modList ! p) of None \<Rightarrow> [] | Some r \<Rightarrow> relative opts r) cycleIdx"




text \<open>
  A loop of which every round either fails (no result), continues without a report, or
  yields a report.
\<close>

primrec collect :: "('a \<Rightarrow> 'b option option) \<Rightarrow> 'a list \<Rightarrow> 'b list option" where
  "collect f [] = Some []"
| "collect f (x # xs) =
     (case f x of
        None \<Rightarrow> None
      | Some r \<Rightarrow>
          (case collect f xs of
             None \<Rightarrow> None
           | Some rs \<Rightarrow> Some (case r of None \<Rightarrow> rs | Some y \<Rightarrow> y # rs)))"

text \<open>
  One round of the reporting loop of \<open>src/index.js\<close>, for the position \<open>mIdx\<close> of the
  sorted module list: the module and the index cycle reported, if any.
\<close>

definition reportOf ::
  "'e options \<Rightarrow> heap \<Rightarrow> handle list \<Rightarrow> nat list list \<Rightarrow> tarjan_state \<Rightarrow> bool list \<Rightarrow> nat
     \<Rightarrow> (handle \<times> nat list) option option" where
  "reportOf opts h modList adj ts sccInvalid mIdx =
     (let m = modList ! mIdx in
      case idOf modList m of
        None \<Rightarrow> Some None
      | Some i \<Rightarrow>
          (let k = sccId ts ! i in
           if k < 0 \<or> (nat k < length sccInvalid \<and> sccInvalid ! nat k) then Some None
           else
             (case getResource h m of
                None \<Rightarrow> Some None
              | Some r \<Rightarrow>
                  if exclude_test opts r then Some None
                  else if \<not> include_test opts r then Some None
                  else
                    (let cmp = (if nat k < length (sccs ts) then sccs ts ! nat k else [])
                     in map_option (map_option (\<lambda>cyc. (m, cyc))) (cycleFrom adj i (set cmp))))))"

text \<open>The cycles reported by the pass of \<open>src/index.js\<close>, in the order of the reports.\<close>

definition cycleReports ::
  "'e options \<Rightarrow> heap \<Rightarrow> handle option list \<Rightarrow> (handle \<times> nat list) list option" where
  "cycleReports opts h modules =
     (let modList = createSortedModuleList h modules;
          adj = buildAdjacencyList h (allowAsyncCycles opts) modList
      in case tarjan (length adj) adj of
           None \<Rightarrow> None
         | Some ts \<Rightarrow>
             (let sccInvalid = flagInvalidComponents (\<lambda>i. getResource h (modList ! i)) (sccs ts)
              in collect (reportOf opts h modList adj ts sccInvalid) [0..<length modList]))"

definition handOffs ::
  "'e options \<Rightarrow> heap \<Rightarrow> handle option list \<Rightarrow> (handle \<times> nat list) list
     \<Rightarrow> (handle \<times> string list) list" where
  "handOffs opts h modules rs =
     map (\<lambda>r. (fst r, relPaths opts h (createSortedModuleList h modules) (snd r))) rs"


text \<open>
  The refactored copy: the components in the order of \<open>sccs\<close>, the members of each one
  sorted by resource (\<open>sortIndicesByResource\<close>), the cycle search on \<open>compSets[k]\<close>.
\<close>

definition sortIndicesByResource :: "(nat \<Rightarrow> string option) \<Rightarrow> nat list \<Rightarrow> nat list" where
  "sortIndicesByResource res indices =
     sort_key (\<lambda>i. case res i of None \<Rightarrow> [] | Some r \<Rightarrow> r) indices"

definition nodeReport ::
  "'e options \<Rightarrow> heap \<Rightarrow> handle list \<Rightarrow> nat list list \<Rightarrow> nat set \<Rightarrow> nat
     \<Rightarrow> (handle \<times> nat list) option option" where
  "nodeReport opts h modList adj compSet node =
     (case getResource h (modList ! node) of
        None \<Rightarrow> Some None
      | Some r \<Rightarrow>
          if exclude_test opts r then Some None
          else if \<not> include_test opts r then Some None
          else map_option (map_option (\<lambda>cyc. (modList ! node, cyc))) (cycleFrom adj node compSet))"

definition componentReports ::
  "'e options \<Rightarrow> heap \<Rightarrow> handle list \<Rightarrow> nat list list \<Rightarrow> nat list
     \<Rightarrow> (handle \<times> nat list) list option" where
  "componentReports opts h modList adj cmp =
     collect (nodeReport opts h modList adj (set cmp))
       (sortIndicesByResource (\<lambda>i. getResource h (modList ! i)) cmp)"

primrec collectEach :: "('a \<Rightarrow> 'b list option) \<Rightarrow> 'a list \<Rightarrow> 'b list option" where
  "collectEach f [] = Some []"
| "collectEach f (x # xs) =
     (case f x of
        None \<Rightarrow> None
      | Some rs \<Rightarrow> (case collectEach f xs of None \<Rightarrow> None | Some rest \<Rightarrow> Some (rs @ rest)))"

definition cycleReports_refactored ::
  "'e options \<Rightarrow> heap \<Rightarrow> handle option list \<Rightarrow> (handle \<times> nat list) list option" where
  "cycleReports_refactored opts h modules =
     (let modList = createSortedModuleList h modules;
          adj = buildAdjacencyList h (allowAsyncCycles opts) modList
      in case computeStronglyConnectedComponents (length adj) adj of
           None \<Rightarrow> None
         | Some comps \<Rightarrow>
             (let sccInvalid = flagInvalidComponents (\<lambda>i. getResource h (modList ! i)) comps
              in collectEach
                   (\<lambda>k. if sccInvalid ! k then Some []
                        else componentReports opts h modList adj (comps ! k))
                   [0..<length comps]))"


section \<open>Vocabulary of the invariants\<close>

definition visited :: "tarjan_state \<Rightarrow> nat set" where
  "visited s = {u. u < length (idx s) \<and> idx s ! u \<noteq> - 1}"

definition wf_state :: "nat \<Rightarrow> tarjan_state \<Rightarrow> bool" where
  "wf_state N s \<longleftrightarrow>
     length (idx s) = N \<and> length (low s) = N \<and> length (onSt s) = N \<and> length (sccId s) = N \<and>
     0 \<le> index s \<and>
     visited s = set (st s) \<union> set (concat (sccs s)) \<and>
     distinct (st s @ concat (sccs s)) \<and> [] \<notin> set (sccs s) \<and>
     (\<forall>u<N. onSt s ! u \<longleftrightarrow> u \<in> set (st s)) \<and>
     (\<forall>u\<in>visited s. idx s ! u < index s) \<and>
     (\<forall>k<length (sccs s). \<forall>u\<in>set (sccs s ! k). sccId s ! u = int k)"

definition call_post :: "nat \<Rightarrow> nat \<Rightarrow> tarjan_state \<Rightarrow> tarjan_state \<Rightarrow> bool" where
  "call_post N v s s' \<longleftrightarrow>
     wf_state N s' \<and> visited s \<subseteq> visited s' \<and> v \<in> visited s' \<and>
     (\<forall>u\<in>visited s. idx s' ! u = idx s ! u \<and> low s' ! u = low s ! u) \<and>
     index s < index s' \<and>
     (\<forall>u\<in>visited s' - visited s. index s \<le> idx s' ! u) \<and>
     (\<exists>cs. sccs s' = sccs s @ cs) \<and>
     ((st s' = st s \<and> low s' ! v = idx s' ! v) \<or>
      (\<exists>ys. st s' = ys @ v # st s \<and> (\<exists>x\<in>set (st s). low s' ! v = idx s ! x)))"

definition loop_inv :: "nat \<Rightarrow> nat \<Rightarrow> tarjan_state \<Rightarrow> tarjan_state \<Rightarrow> bool" where
  "loop_inv N v s0 s \<longleftrightarrow>
     wf_state N s0 \<and> wf_state N s \<and> v < N \<and> v \<notin> visited s0 \<and> visited s0 \<subseteq> visited s \<and>
     v \<in> visited s \<and>
     (\<forall>u\<in>visited s0. idx s ! u = idx s0 ! u \<and> low s ! u = low s0 ! u) \<and>
     idx s ! v = index s0 \<and> index s0 < index s \<and>
     (\<forall>u\<in>visited s - visited s0. u \<noteq> v \<longrightarrow> index s0 < idx s ! u) \<and>
     (\<exists>cs. sccs s = sccs s0 @ cs) \<and>
     (\<exists>zs. st s = zs @ v # st s0) \<and>
     low s ! v \<le> index s0 \<and>
     (\<exists>x\<in>set (v # st s0). low s ! v = idx s ! x)"

definition push :: "nat \<Rightarrow> tarjan_state \<Rightarrow> tarjan_state" where
  "push v s = s\<lparr>idx := (idx s)[v := index s], low := (low s)[v := index s],
                 index := index s + 1, st := v # st s, onSt := (onSt s)[v := True]\<rparr>"

definition sc_ok :: "nat \<Rightarrow> nat \<Rightarrow> (nat \<Rightarrow> tarjan_state \<Rightarrow> tarjan_state option) \<Rightarrow> bool" where
  "sc_ok N d sc \<longleftrightarrow>
     (\<forall>v s. wf_state N s \<and> v < N \<and> v \<notin> visited s \<longrightarrow>
        (\<forall>s'. sc v s = Some s' \<longrightarrow> call_post N v s s') \<and>
        (card ({..<N} - visited s) \<le> d \<longrightarrow> sc v s \<noteq> None))"

definition same_search :: "tarjan_state \<Rightarrow> tarjan_state \<Rightarrow> bool" where
  "same_search s t \<longleftrightarrow>
     index s = index t \<and> idx s = idx t \<and> low s = low t \<and> onSt s = onSt t \<and> st s = st t \<and>
     sccs s = sccs t"

definition comp_edges :: "nat list list \<Rightarrow> nat set \<Rightarrow> (nat \<times> nat) set" where
  "comp_edges adj C = {(a, b). a \<in> C \<and> b \<in> C \<and> a < length adj \<and> b \<in> set (adj ! a)}"

definition dfs_inv :: "nat \<Rightarrow> nat set \<Rightarrow> dfs_state \<Rightarrow> bool" where
  "dfs_inv start C s \<longleftrightarrow>
     distinct (stack s) \<and> set (stack s) \<subseteq> seen s \<and> set (stack s) \<subseteq> C \<and>
     (stack s \<noteq> [] \<longrightarrow> last (stack s) = start)"

definition dfs_post ::
  "nat list list \<Rightarrow> nat \<Rightarrow> nat set \<Rightarrow> nat \<Rightarrow> dfs_state \<Rightarrow> bool \<Rightarrow> dfs_state \<Rightarrow> bool" where
  "dfs_post adj start C u s b s' \<longleftrightarrow>
     dfs_inv start C s' \<and> seen s \<subseteq> seen s' \<and>
     (b \<longrightarrow> 1 < length (stack s')) \<and>
     (\<not> b \<longrightarrow> stack s' = stack s \<and> u \<in> seen s' \<and>
        (\<forall>x\<in>seen s' - seen s. \<forall>y. (x, y) \<in> comp_edges adj C \<longrightarrow>
            y \<in> seen s' \<and> (y = start \<longrightarrow> x = u \<and> stack s = [])))"

definition dfs_ok ::
  "nat list list \<Rightarrow> nat \<Rightarrow> nat set \<Rightarrow> nat \<Rightarrow> (nat \<Rightarrow> dfs_state \<Rightarrow> (bool \<times> dfs_state) option) \<Rightarrow> bool" where
  "dfs_ok adj start C d rc \<longleftrightarrow>
     (\<forall>u s. dfs_inv start C s \<and> u \<in> C \<and> u \<notin> seen s \<and> (stack s = [] \<longrightarrow> u = start) \<longrightarrow>
        (\<forall>b s'. rc u s = Some (b, s') \<longrightarrow> dfs_post adj start C u s b s') \<and>
        (card (C - seen s) \<le> d \<longrightarrow> rc u s \<noteq> None))"

definition dfs_loop ::
  "nat list list \<Rightarrow> nat \<Rightarrow> nat set \<Rightarrow> nat \<Rightarrow> nat list \<Rightarrow> nat set \<Rightarrow> nat set \<Rightarrow> dfs_state \<Rightarrow> bool" where
  "dfs_loop adj start C u stk0 seen0 P s \<longleftrightarrow>
     dfs_inv start C s \<and> stack s = u # stk0 \<and> insert u seen0 \<subseteq> seen s \<and>
     (\<forall>x\<in>seen s - insert u seen0. \<forall>y. (x, y) \<in> comp_edges adj C \<longrightarrow> y \<in> seen s \<and> y \<noteq> start) \<and>
     (\<forall>y\<in>P. y \<in> C \<longrightarrow> y \<in> seen s \<and> (y = start \<longrightarrow> stk0 = []))"

definition edges :: "nat list list \<Rightarrow> (nat \<times> nat) set" where
  "edges adj = {(u, w). u < length adj \<and> w \<in> set (adj ! u) \<and> w < length adj}"

definition is_scc :: "nat list list \<Rightarrow> nat set \<Rightarrow> bool" where
  "is_scc adj C \<longleftrightarrow>
     C \<noteq> {} \<and> C \<subseteq> {..<length adj} \<and>
     (\<forall>u\<in>C. \<forall>w. w \<in> C \<longleftrightarrow> (u, w) \<in> (edges adj)\<^sup>* \<and> (w, u) \<in> (edges adj)\<^sup>*)"

definition scc_inv :: "nat list list \<Rightarrow> tarjan_state \<Rightarrow> bool" where
  "scc_inv adj s \<longleftrightarrow> (\<forall>c\<in>set (sccs s). is_scc adj (set c))"

definition call_post2 :: "nat list list \<Rightarrow> nat \<Rightarrow> tarjan_state \<Rightarrow> tarjan_state \<Rightarrow> bool" where
  "call_post2 adj v s s' \<longleftrightarrow>
     scc_inv adj s' \<and>
     (\<forall>u\<in>visited s' - visited s.
        (v, u) \<in> (edges adj)\<^sup>* \<and> (\<forall>w. (u, w) \<in> edges adj \<longrightarrow> w \<in> visited s')) \<and>
     (\<forall>ys. st s' = ys @ v # st s \<longrightarrow>
        (\<forall>u\<in>set ys. (u, v) \<in> (edges adj)\<^sup>*) \<and>
        (\<exists>x\<in>set (st s). low s' ! v = idx s ! x \<and> (v, x) \<in> (edges adj)\<^sup>*) \<and>
        (\<forall>u\<in>set (ys @ [v]). \<forall>y\<in>set (st s). (u, y) \<in> edges adj \<longrightarrow> low s' ! v \<le> idx s ! y))"

definition loop_inv2 ::
  "nat list list \<Rightarrow> nat \<Rightarrow> tarjan_state \<Rightarrow> nat set \<Rightarrow> tarjan_state \<Rightarrow> bool" where
  "loop_inv2 adj v s0 P s \<longleftrightarrow>
     scc_inv adj s \<and>
     (\<forall>y\<in>set (st s0). (y, v) \<in> (edges adj)\<^sup>*) \<and>
     (\<forall>u\<in>visited s - visited s0.
        (v, u) \<in> (edges adj)\<^sup>* \<and> (u \<noteq> v \<longrightarrow> (\<forall>w. (u, w) \<in> edges adj \<longrightarrow> w \<in> visited s))) \<and>
     (\<forall>w\<in>P. w < length adj \<longrightarrow>
        w \<in> visited s \<and> (w \<in> set (st s0) \<longrightarrow> low s ! v \<le> idx s ! w)) \<and>
     (\<forall>zs. st s = zs @ v # st s0 \<longrightarrow>
        (\<forall>u\<in>set zs. (u, v) \<in> (edges adj)\<^sup>* \<and>
           (\<forall>y\<in>set (st s0). (u, y) \<in> edges adj \<longrightarrow> low s ! v \<le> idx s ! y))) \<and>
     (\<exists>x\<in>set (v # st s0). low s ! v = idx s ! x \<and> (v, x) \<in> (edges adj)\<^sup>*)"

definition sc_ok2 :: "nat list list \<Rightarrow> (nat \<Rightarrow> tarjan_state \<Rightarrow> tarjan_state option) \<Rightarrow> bool" where
  "sc_ok2 adj sc \<longleftrightarrow>
     (\<forall>v s s'. wf_state (length adj) s \<and> v < length adj \<and> v \<notin> visited s \<and> scc_inv adj s \<and>
        (\<forall>y\<in>set (st s). (y, v) \<in> (edges adj)\<^sup>*) \<and> sc v s = Some s' \<longrightarrow>
        call_post2 adj v s s')"

definition eligible :: "'e options \<Rightarrow> heap \<Rightarrow> handle \<Rightarrow> bool" where
  "eligible opts h m =
     (case getResource h m of None \<Rightarrow> False
      | Some r \<Rightarrow> \<not> exclude_test opts r \<and> include_test opts r)"

definition cyclic :: "nat list list \<Rightarrow> (nat \<Rightarrow> string option) \<Rightarrow> nat set \<Rightarrow> bool" where
  "cyclic adj res C \<longleftrightarrow> is_scc adj C \<and> 2 \<le> card C \<and> (\<forall>j\<in>C. res j \<noteq> None)"

definition reportable :: "'e options \<Rightarrow> heap \<Rightarrow> handle list \<Rightarrow> nat list list \<Rightarrow> nat \<Rightarrow> bool" where
  "reportable opts h modList adj i \<longleftrightarrow>
     eligible opts h (modList ! i) \<and>
     (\<exists>C. cyclic adj (\<lambda>j. getResource h (modList ! j)) C \<and> i \<in> C)"

definition reportAt ::
  "'e options \<Rightarrow> heap \<Rightarrow> handle list \<Rightarrow> nat list list \<Rightarrow> tarjan_state \<Rightarrow> nat
     \<Rightarrow> (handle \<times> nat list) option" where
  "reportAt opts h modList adj ts i =
     (if reportable opts h modList adj i
      then Some (modList ! i, the (the (cycleFrom adj i (set (sccs ts ! nat (sccId ts ! i))))))
      else None)"


text \<open>
  The stack of the cycle search is a path of the component read from the bottom: every
  element is reached by an edge from the one below it.  When \<open>dfs\<close> returns \<open>true\<close> the
  top of the stack has an edge back to \<open>start\<close>; when it returns \<open>false\<close> the stack is as
  it was.
\<close>

definition path_inv :: "nat list list \<Rightarrow> nat set \<Rightarrow> nat list \<Rightarrow> bool" where
  "path_inv adj C stk \<longleftrightarrow> successively (\<lambda>a b. (b, a) \<in> comp_edges adj C) stk"

definition path_post :: "nat list list \<Rightarrow> nat \<Rightarrow> nat set \<Rightarrow> dfs_state \<Rightarrow> bool \<Rightarrow> dfs_state \<Rightarrow> bool" where
  "path_post adj start C s b s' \<longleftrightarrow>
     path_inv adj C (stack s') \<and>
     (b \<longrightarrow> stack s' \<noteq> [] \<and> (hd (stack s'), start) \<in> comp_edges adj C) \<and>
     (\<not> b \<longrightarrow> stack s' = stack s)"

definition path_ok ::
  "nat list list \<Rightarrow> nat \<Rightarrow> nat set \<Rightarrow> (nat \<Rightarrow> dfs_state \<Rightarrow> (bool \<times> dfs_state) option) \<Rightarrow> bool" where
  "path_ok adj start C rc \<longleftrightarrow>
     (\<forall>u s b s'. path_inv adj C (stack s) \<and> u \<in> C \<and>
        (stack s \<noteq> [] \<longrightarrow> (hd (stack s), u) \<in> comp_edges adj C) \<and> rc u s = Some (b, s') \<longrightarrow>
        path_post adj start C s b s')"

section \<open>Example inputs\<close>

text \<open>A module with a resource and one plain dependency record for every target.\<close>

definition mkModule :: "string \<Rightarrow> handle list \<Rightarrow> module" where
  "mkModule r ts =
     \<lparr>resource = Some r, rootModule = None, originalModule = None,
      dependencies =
        map (\<lambda>t. Some \<lparr>selfReference = False, weak = False, depModule = Some t\<rparr>) ts\<rparr>"

text \<open>
  The store holding the listed modules at the handles \<open>0, 1, ...\<close>; every other handle
  is a module without resource and without dependencies.
\<close>

definition heapOf :: "module list \<Rightarrow> heap" where
  "heapOf ms k =
     (if k < length ms then ms ! k
      else \<lparr>resource = None, rootModule = None, originalModule = None, dependencies = []\<rparr>)"

text \<open>The default options: nothing excluded, everything included, warnings, no callback.\<close>

definition defaultOptions :: "unit options" where
  "defaultOptions =
     \<lparr>exclude_test = (\<lambda>_. False), include_test = (\<lambda>_. True), failOnError = False,
      allowAsyncCycles = False, onDetected = None, relative = (\<lambda>p. p)\<rparr>"

text \<open>The chain \<open>0 \<rightarrow> 1 \<rightarrow> ... \<rightarrow> n - 1\<close> as adjacency lists.\<close>

definition chain :: "nat \<Rightarrow> nat list list" where
  "chain n = map (\<lambda>i. if Suc i < n then [Suc i] else []) [0..<n]"

text \<open>A module importing the same module through two dependency records.\<close>

definition dupHeap :: heap where
  "dupHeap = heapOf [mkModule ''a'' [1, 1], mkModule ''b'' []]"

text \<open>A module that depends on itself and on a module that depends on it.\<close>

definition selfHeap :: heap where
  "selfHeap = heapOf [mkModule ''a'' [0, 1], mkModule ''b'' [0]]"

text \<open>The cycle \<open>a \<rightarrow> b \<rightarrow> c \<rightarrow> a\<close> and a module \<open>d\<close> without dependencies.\<close>

definition cycHeap :: heap where
  "cycHeap = heapOf [mkModule ''a'' [1], mkModule ''b'' [2], mkModule ''c'' [0], mkModule ''d'' []]"

text \<open>Two modules importing each other.\<close>

definition pairHeap :: heap where
  "pairHeap = heapOf [mkModule ''a'' [1], mkModule ''b'' [0]]"

text \<open>The default options with \<open>exclude: /^b$/\<close>.\<close>

definition excludeB :: "unit options" where
  "excludeB = defaultOptions\<lparr>exclude_test := (\<lambda>r. r = ''b'')\<rparr>"








section \<open>Facts about the graph builder\<close>

lemma getResource_nonempty: "getResource h m = Some r \<Longrightarrow> r \<noteq> []"
  by (auto simp: getResource_def resourceOf_def truthy_def split: option.splits if_splits)

lemma idOf_fold_aux:
  "fold (\<lambda>i f. f(xs ! i \<mapsto> i)) is f0 m = Some j \<Longrightarrow>
     (j \<in> set is \<and> xs ! j = m) \<or> f0 m = Some j"
  by (induction "is" arbitrary: f0) (fastforce split: if_splits)+

lemma idOf_Some: "idOf xs m = Some j \<Longrightarrow> j < length xs \<and> xs ! j = m"
  using idOf_fold_aux [of xs "[0..<length xs]" Map.empty m j] by (simp add: idOf_def)

lemma idOf_fold_dom:
  "dom (fold (\<lambda>i f. f(xs ! i \<mapsto> i)) is f0) = dom f0 \<union> (\<lambda>i. xs ! i) ` set is"
  by (induction "is" arbitrary: f0) auto

lemma idOf_dom: "dom (idOf xs) = set xs"
proof -
  have "(\<lambda>i. xs ! i) ` set [0..<length xs] = set xs"
    by (metis map_nth set_map)
  then show ?thesis by (simp add: idOf_def idOf_fold_dom)
qed

lemma idOf_distinct:
  assumes "distinct xs" "i < length xs"
  shows "idOf xs (xs ! i) = Some i"
proof -
  have "xs ! i \<in> dom (idOf xs)" using assms by (simp add: idOf_dom)
  then obtain j where j: "idOf xs (xs ! i) = Some j" by auto
  then have "j < length xs" "xs ! j = xs ! i" using idOf_Some by blast+
  with assms have "j = i" by (simp add: nth_eq_iff_index_eq)
  with j show ?thesis by simp
qed

lemma keptDependency_Some:
  "keptDependency h a m d = Some t \<Longrightarrow> t \<noteq> m \<and> getResource h t \<noteq> None"
  by (simp add: keptDependency_def split: option.splits if_splits)

lemma in_map_filterD: "y \<in> set (List.map_filter f xs) \<Longrightarrow> \<exists>x \<in> set xs. f x = Some y"
  by (auto simp: List.map_filter_def)

lemma getDeps_not_self: "m \<notin> set (getDeps h a m)"
  unfolding getDeps_def using keptDependency_Some in_map_filterD by fastforce

lemma length_buildAdjacencyList [simp]:
  "length (buildAdjacencyList h a xs) = length xs"
  by (simp add: buildAdjacencyList_def)

lemma nth_buildAdjacencyList:
  "i < length xs \<Longrightarrow>
     buildAdjacencyList h a xs ! i = List.map_filter (idOf xs) (getDeps h a (xs ! i))"
  by (simp add: buildAdjacencyList_def)

lemma adj_entry:
  assumes "i < length xs" "j \<in> set (buildAdjacencyList h a xs ! i)"
  shows "j < length xs \<and> j \<noteq> i"
proof -
  from assms obtain t where t: "t \<in> set (getDeps h a (xs ! i))" "idOf xs t = Some j"
    by (auto simp: nth_buildAdjacencyList List.map_filter_def)
  then have "j < length xs" "xs ! j = t" using idOf_Some by blast+
  moreover have "t \<noteq> xs ! i" using t(1) getDeps_not_self by blast
  ultimately show ?thesis by auto
qed

lemma map_filter_idOf_back:
  "map (\<lambda>j. xs ! j) (List.map_filter (idOf xs) ts) = filter (\<lambda>t. t \<in> set xs) ts"
proof (induction ts)
  case Nil
  then show ?case by (simp add: List.map_filter_def)
next
  case (Cons t ts)
  show ?case
  proof (cases "idOf xs t")
    case None
    then have "t \<notin> set xs" using idOf_dom [of xs] by blast
    with None Cons show ?thesis by (simp add: List.map_filter_def)
  next
    case (Some j)
    then have "xs ! j = t" "t \<in> set xs" using idOf_Some [OF Some] by auto
    with Some Cons show ?thesis by (simp add: List.map_filter_def)
  qed
qed

lemma anyMissingResource_iff: "anyMissingResource res is \<longleftrightarrow> (\<exists>i\<in>set is. res i = None)"
  by (induction "is") auto

lemma concat_disjoint_less:
  "distinct (concat xs) \<Longrightarrow> k < k' \<Longrightarrow> k' < length xs \<Longrightarrow> set (xs ! k) \<inter> set (xs ! k') = {}"
proof (induction xs arbitrary: k k')
  case Nil
  then show ?case by simp
next
  case (Cons a xs)
  from Cons.prems(2) obtain j where j: "k' = Suc j" by (cases k') auto
  show ?case
  proof (cases k)
    case 0
    have "xs ! j \<in> set xs" using Cons.prems(3) j by simp
    then have "set (xs ! j) \<subseteq> set (concat xs)" by auto
    then show ?thesis using Cons.prems(1) 0 j by auto
  next
    case (Suc i)
    then show ?thesis using Cons.IH [of i j] Cons.prems j by simp
  qed
qed

lemma concat_disjoint:
  assumes "distinct (concat xs)" "k < length xs" "k' < length xs" "k \<noteq> k'"
  shows "set (xs ! k) \<inter> set (xs ! k') = {}"
proof (cases "k < k'")
  case True
  then show ?thesis using concat_disjoint_less assms by blast
next
  case False
  then have "k' < k" using assms(4) by simp
  then have "set (xs ! k') \<inter> set (xs ! k) = {}" using concat_disjoint_less assms by blast
  then show ?thesis by blast
qed

section \<open>The SCC engine: termination and the shape of its state\<close>

lemma visited_low_update [simp]: "visited (s\<lparr>low := x\<rparr>) = visited s"
  by (simp add: visited_def)

lemma wf_state_low_update:
  "wf_state N s \<Longrightarrow> length x = N \<Longrightarrow> wf_state N (s\<lparr>low := x\<rparr>)"
  by (simp add: wf_state_def)

lemma wf_stack_visited: "wf_state N s \<Longrightarrow> u \<in> set (st s) \<Longrightarrow> u \<in> visited s"
  by (simp add: wf_state_def)

lemma visited_less: "wf_state N s \<Longrightarrow> u \<in> visited s \<Longrightarrow> u < N"
  by (auto simp: wf_state_def visited_def)

lemma visited_push:
  assumes "wf_state N s" "v < N"
  shows "visited (push v s) = insert v (visited s)"
proof -
  have "index s \<noteq> - 1" using assms by (simp add: wf_state_def)
  then show ?thesis using assms
    by (auto simp: visited_def push_def wf_state_def nth_list_update)
qed

lemma wf_stateI:
  assumes "length (idx s) = N" "length (low s) = N" "length (onSt s) = N" "length (sccId s) = N"
    and "0 \<le> index s"
    and "visited s = set (st s) \<union> set (concat (sccs s))"
    and "distinct (st s @ concat (sccs s))" "[] \<notin> set (sccs s)"
    and "\<And>u. u < N \<Longrightarrow> onSt s ! u \<longleftrightarrow> u \<in> set (st s)"
    and "\<And>u. u \<in> visited s \<Longrightarrow> idx s ! u < index s"
    and "\<And>k u. k < length (sccs s) \<Longrightarrow> u \<in> set (sccs s ! k) \<Longrightarrow> sccId s ! u = int k"
  shows "wf_state N s"
  using assms unfolding wf_state_def by blast

lemma wf_lengths:
  "wf_state N s \<Longrightarrow> length (idx s) = N \<and> length (low s) = N \<and> length (onSt s) = N \<and> length (sccId s) = N"
  by (simp add: wf_state_def)

lemma wf_index_nonneg: "wf_state N s \<Longrightarrow> 0 \<le> index s"
  by (simp add: wf_state_def)

lemma wf_visited: "wf_state N s \<Longrightarrow> visited s = set (st s) \<union> set (concat (sccs s))"
  by (simp add: wf_state_def)

lemma wf_distinct: "wf_state N s \<Longrightarrow> distinct (st s @ concat (sccs s))"
  by (simp add: wf_state_def)

lemma wf_nonempty: "wf_state N s \<Longrightarrow> [] \<notin> set (sccs s)"
  by (simp add: wf_state_def)

lemma wf_onSt: "wf_state N s \<Longrightarrow> u < N \<Longrightarrow> onSt s ! u \<longleftrightarrow> u \<in> set (st s)"
  by (simp add: wf_state_def)

lemma wf_idx_less: "wf_state N s \<Longrightarrow> u \<in> visited s \<Longrightarrow> idx s ! u < index s"
  by (simp add: wf_state_def)

lemma wf_sccId:
  "wf_state N s \<Longrightarrow> k < length (sccs s) \<Longrightarrow> u \<in> set (sccs s ! k) \<Longrightarrow> sccId s ! u = int k"
  by (simp add: wf_state_def)

lemma wf_push:
  assumes wf: "wf_state N s" and v: "v < N" "v \<notin> visited s"
  shows "wf_state N (push v s)"
proof (rule wf_stateI)
  note len = wf_lengths [OF wf]
  have vis: "visited (push v s) = insert v (visited s)" by (rule visited_push [OF wf v(1)])
  show "length (idx (push v s)) = N" "length (low (push v s)) = N"
    "length (onSt (push v s)) = N" "length (sccId (push v s)) = N"
    using len by (simp_all add: push_def)
  show "0 \<le> index (push v s)" using wf_index_nonneg [OF wf] by (simp add: push_def)
  show "visited (push v s) = set (st (push v s)) \<union> set (concat (sccs (push v s)))"
    unfolding vis using wf_visited [OF wf] by (simp add: push_def)
  show "distinct (st (push v s) @ concat (sccs (push v s)))"
    using wf_distinct [OF wf] v(2) wf_visited [OF wf] by (simp add: push_def)
  show "[] \<notin> set (sccs (push v s))" using wf_nonempty [OF wf] by (simp add: push_def)
  show "onSt (push v s) ! u \<longleftrightarrow> u \<in> set (st (push v s))" if "u < N" for u
    using wf_onSt [OF wf that] that len v(1) by (auto simp: push_def nth_list_update)
  show "idx (push v s) ! u < index (push v s)" if "u \<in> visited (push v s)" for u
  proof (cases "u = v")
    case True
    then show ?thesis using v len by (simp add: push_def)
  next
    case False
    then have "u \<in> visited s" using that vis by simp
    from wf_idx_less [OF wf this] False show ?thesis by (simp add: push_def)
  qed
  show "sccId (push v s) ! u = int k"
    if "k < length (sccs (push v s))" "u \<in> set (sccs (push v s) ! k)" for k u
    using that wf_sccId [OF wf, of k u] by (simp add: push_def)
qed

lemma loop_inv_init:
  assumes wf: "wf_state N s" and v: "v < N" "v \<notin> visited s"
  shows "loop_inv N v s (push v s)"
proof -
  note len = wf_lengths [OF wf]
  have vis: "visited (push v s) = insert v (visited s)" by (rule visited_push [OF wf v(1)])
  have frame: "idx (push v s) ! u = idx s ! u \<and> low (push v s) ! u = low s ! u"
    if "u \<in> visited s" for u
  proof -
    have "v \<noteq> u" using that v(2) by auto
    then show ?thesis by (simp add: push_def)
  qed
  have "idx (push v s) ! v = index s" "low (push v s) ! v = index s"
    using len v(1) by (simp_all add: push_def)
  moreover have "sccs (push v s) = sccs s @ []" "st (push v s) = [] @ v # st s"
    "index s < index (push v s)"
    by (simp_all add: push_def)
  ultimately show ?thesis
    unfolding loop_inv_def vis using wf wf_push [OF wf v] v frame
    by (auto simp del: append_Nil append_Nil2 intro: exI [of _ "[]"])
qed

lemma loop_inv_above:
  assumes li: "loop_inv N v s0 s" and stk: "st s = zs @ v # st s0" and x: "x \<in> set zs"
  shows "x \<in> visited s - visited s0 \<and> x \<noteq> v \<and> index s0 < idx s ! x"
proof -
  have wf0: "wf_state N s0" and wf: "wf_state N s" using li by (simp_all add: loop_inv_def)
  obtain cs where cs: "sccs s = sccs s0 @ cs" using li by (auto simp: loop_inv_def)
  have d: "distinct (zs @ v # st s0 @ concat (sccs s0) @ concat cs)"
    using wf_distinct [OF wf] stk cs by simp
  have "x \<in> visited s" using wf_visited [OF wf] stk x by simp
  moreover have "x \<notin> visited s0" using wf_visited [OF wf0] d x by auto
  moreover have "x \<noteq> v" using d x by auto
  ultimately show ?thesis using li by (auto simp: loop_inv_def)
qed

lemma loop_inv_lower:
  assumes li: "loop_inv N v s0 s"
    and l: "l \<le> low s ! v" "l = low s ! v \<or> (\<exists>x\<in>set (st s0). l = idx s ! x)"
  shows "loop_inv N v s0 (s\<lparr>low := (low s)[v := l]\<rparr>)"
proof -
  have wf: "wf_state N s" and v: "v < N" "v \<notin> visited s0" using li by (simp_all add: loop_inv_def)
  note len = wf_lengths [OF wf]
  have wf': "wf_state N (s\<lparr>low := (low s)[v := l]\<rparr>)"
    by (rule wf_state_low_update [OF wf]) (simp add: len)
  have lowv: "(low s)[v := l] ! v = l" using len v by simp
  have frame: "(low s)[v := l] ! u = low s ! u" if "u \<in> visited s0" for u
  proof -
    have "v \<noteq> u" using that v by auto
    then show ?thesis by simp
  qed
  show ?thesis
    unfolding loop_inv_def using li wf' l lowv frame
    by (auto simp: loop_inv_def)
qed

lemma loop_inv_after_call:
  assumes li: "loop_inv N v s0 s" and cp: "call_post N w s s'"
  shows "loop_inv N v s0 s'"
proof -
  have wf0: "wf_state N s0" and wf: "wf_state N s" and wf': "wf_state N s'"
    using li cp by (simp_all add: loop_inv_def call_post_def)
  have v: "v < N" "v \<notin> visited s0" "v \<in> visited s" and sub: "visited s0 \<subseteq> visited s"
    using li by (auto simp: loop_inv_def)
  have sub': "visited s \<subseteq> visited s'" using cp by (simp add: call_post_def)
  have frame': "idx s' ! u = idx s ! u \<and> low s' ! u = low s ! u" if "u \<in> visited s" for u
    using cp that by (simp add: call_post_def)
  have frame: "idx s ! u = idx s0 ! u \<and> low s ! u = low s0 ! u" if "u \<in> visited s0" for u
    using li that by (simp add: loop_inv_def)
  have ix: "index s0 < index s" "index s < index s'"
    using li cp by (simp_all add: loop_inv_def call_post_def)
  have new: "index s0 < idx s' ! u" if "u \<in> visited s' - visited s0" "u \<noteq> v" for u
  proof (cases "u \<in> visited s")
    case True
    then have "index s0 < idx s ! u" using li that by (auto simp: loop_inv_def)
    then show ?thesis using frame' [OF True] by simp
  next
    case False
    then have "index s \<le> idx s' ! u" using cp that by (auto simp: call_post_def)
    then show ?thesis using ix by simp
  qed
  obtain cs where cs: "sccs s = sccs s0 @ cs" using li by (auto simp: loop_inv_def)
  obtain cs' where cs': "sccs s' = sccs s @ cs'" using cp by (auto simp: call_post_def)
  obtain zs where zs: "st s = zs @ v # st s0" using li by (auto simp: loop_inv_def)
  have stk: "\<exists>zs'. st s' = zs' @ v # st s0"
  proof -
    from cp have "st s' = st s \<or> (\<exists>ys. st s' = ys @ w # st s)" by (auto simp: call_post_def)
    then show ?thesis
    proof
      assume "st s' = st s"
      then show ?thesis using zs by auto
    next
      assume "\<exists>ys. st s' = ys @ w # st s"
      then obtain ys where "st s' = (ys @ w # zs) @ v # st s0" using zs by auto
      then show ?thesis by blast
    qed
  qed
  obtain x where x: "x \<in> set (v # st s0)" "low s ! v = idx s ! x" using li by (auto simp: loop_inv_def)
  have "x \<in> visited s" using x(1) v(3) wf_stack_visited [OF wf0] sub by auto
  then have wit: "\<exists>x\<in>set (v # st s0). low s' ! v = idx s' ! x"
    using x frame' [of x] frame' [OF v(3)] by (intro bexI [of _ x]) auto
  have "low s ! v \<le> index s0" "idx s ! v = index s0" using li by (simp_all add: loop_inv_def)
  then have lv: "low s' ! v \<le> index s0" "idx s' ! v = index s0" using frame' [OF v(3)] by simp_all
  show ?thesis
    unfolding loop_inv_def
    using wf0 wf' v sub sub' frame frame' ix new cs cs' stk wit lv
    by (auto simp: subset_iff)
qed

lemma loop_inv_call:
  assumes li: "loop_inv N v s0 s" and cp: "call_post N w s s'" and w: "w \<notin> visited s"
  shows "loop_inv N v s0
           (s'\<lparr>low := (low s')[v := (if low s' ! v < low s' ! w then low s' ! v else low s' ! w)]\<rparr>)"
proof -
  have li': "loop_inv N v s0 s'" by (rule loop_inv_after_call [OF li cp])
  have wf0: "wf_state N s0" and wf: "wf_state N s" using li by (simp_all add: loop_inv_def)
  have lv: "low s' ! v \<le> index s0" and ix: "index s0 < index s"
    using li li' by (simp_all add: loop_inv_def)
  have frame0: "idx s ! u = idx s0 ! u" if "u \<in> visited s0" for u
    using li that by (simp add: loop_inv_def)
  have frame': "idx s' ! u = idx s ! u" if "u \<in> visited s" for u
    using cp that by (simp add: call_post_def)
  have sub: "visited s0 \<subseteq> visited s" using li by (simp add: loop_inv_def)
  show ?thesis
  proof (cases "low s' ! v < low s' ! w")
    case True
    then show ?thesis using loop_inv_lower [OF li', of "low s' ! v"] by simp
  next
    case False
    have "low s' ! w = low s' ! v \<or> (\<exists>x\<in>set (st s0). low s' ! w = idx s' ! x)"
    proof -
      from cp have "(st s' = st s \<and> low s' ! w = idx s' ! w) \<or>
          (\<exists>x\<in>set (st s). low s' ! w = idx s ! x)"
        by (auto simp: call_post_def)
      then show ?thesis
      proof
        assume "st s' = st s \<and> low s' ! w = idx s' ! w"
        moreover have "w \<in> visited s' - visited s" using cp w by (simp add: call_post_def)
        then have "index s \<le> idx s' ! w" using cp by (simp add: call_post_def)
        ultimately show ?thesis using False lv ix by simp
      next
        assume "\<exists>x\<in>set (st s). low s' ! w = idx s ! x"
        then obtain x where x: "x \<in> set (st s)" "low s' ! w = idx s ! x" by blast
        obtain zs where zs: "st s = zs @ v # st s0" using li by (auto simp: loop_inv_def)
        from x(1) zs consider "x \<in> set zs" | "x = v" | "x \<in> set (st s0)" by auto
        then show ?thesis
        proof cases
          case 1
          then have "index s0 < idx s ! x" using loop_inv_above [OF li zs] by blast
          then show ?thesis using x(2) False lv by simp
        next
          case 2
          then have "idx s ! x = index s0" using li by (simp add: loop_inv_def)
          then show ?thesis using x(2) False lv by simp
        next
          case 3
          then have "x \<in> visited s0" using wf_stack_visited [OF wf0] by simp
          then have "idx s' ! x = idx s ! x" using frame' sub by blast
          then have "low s' ! w = idx s' ! x" using x(2) by simp
          then show ?thesis using 3 by blast
        qed
      qed
    qed
    moreover have "low s' ! w \<le> low s' ! v" using False by simp
    ultimately show ?thesis using loop_inv_lower [OF li', of "low s' ! w"] False by simp
  qed
qed

lemma loop_inv_back:
  assumes li: "loop_inv N v s0 s" and w: "w < N" "onSt s ! w"
  shows "loop_inv N v s0
           (s\<lparr>low := (low s)[v := (if low s ! v < idx s ! w then low s ! v else idx s ! w)]\<rparr>)"
proof (cases "low s ! v < idx s ! w")
  case True
  then show ?thesis using loop_inv_lower [OF li, of "low s ! v"] by simp
next
  case False
  have wf: "wf_state N s" using li by (simp add: loop_inv_def)
  have lv: "low s ! v \<le> index s0" using li by (simp add: loop_inv_def)
  have "w \<in> set (st s)" using wf_onSt [OF wf w(1)] w(2) by simp
  moreover obtain zs where zs: "st s = zs @ v # st s0" using li by (auto simp: loop_inv_def)
  ultimately consider "w \<in> set zs" | "w = v" | "w \<in> set (st s0)" by auto
  then have "idx s ! w = low s ! v \<or> (\<exists>x\<in>set (st s0). idx s ! w = idx s ! x)"
  proof cases
    case 1
    then have "index s0 < idx s ! w" using loop_inv_above [OF li zs] by blast
    then show ?thesis using False lv by simp
  next
    case 2
    then have "idx s ! w = index s0" using li by (simp add: loop_inv_def)
    then show ?thesis using False lv by simp
  next
    case 3
    then show ?thesis by blast
  qed
  moreover have "idx s ! w \<le> low s ! v" using False by simp
  ultimately show ?thesis using loop_inv_lower [OF li, of "idx s ! w"] False by simp
qed

lemma loop_exit_keep:
  assumes li: "loop_inv N v s0 s" and ne: "low s ! v \<noteq> idx s ! v"
  shows "call_post N v s0 s"
proof -
  have wf0: "wf_state N s0" using li by (simp add: loop_inv_def)
  obtain zs where zs: "st s = zs @ v # st s0" using li by (auto simp: loop_inv_def)
  obtain x where x: "x \<in> set (v # st s0)" "low s ! v = idx s ! x"
    using li by (auto simp: loop_inv_def)
  with ne have xs: "x \<in> set (st s0)" by auto
  then have "x \<in> visited s0" using wf_stack_visited [OF wf0] by simp
  then have "idx s ! x = idx s0 ! x" using li by (simp add: loop_inv_def)
  with x xs have wit: "\<exists>x\<in>set (st s0). low s ! v = idx s0 ! x" by auto
  have new: "index s0 \<le> idx s ! u" if "u \<in> visited s - visited s0" for u
    using li that by (cases "u = v") (auto simp: loop_inv_def)
  show ?thesis
    unfolding call_post_def using li zs wit new by (auto simp: loop_inv_def)
qed

lemma nth_list_update_if:
  "j < length xs \<Longrightarrow> xs[i := x] ! j = (if i = j then x else xs ! j)"
  by (cases "i = j") auto

lemma strongconnect_pop_result:
  assumes "v \<notin> set zs"
  shows "\<exists>s'. strongconnect_pop v (zs @ v # rest) c s = Some (c @ zs @ [v], s') \<and>
     st s' = rest \<and> index s' = index s \<and> idx s' = idx s \<and> low s' = low s \<and> sccs s' = sccs s \<and>
     length (onSt s') = length (onSt s) \<and> length (sccId s') = length (sccId s) \<and>
     (\<forall>u<length (onSt s). onSt s' ! u = (u \<notin> set (zs @ [v]) \<and> onSt s ! u)) \<and>
     (\<forall>u<length (sccId s). sccId s' ! u =
        (if u \<in> set (zs @ [v]) then int (length (sccs s)) else sccId s ! u))"
  using assms
proof (induction zs arbitrary: c s)
  case Nil
  then show ?case by (auto simp: nth_list_update_if)
next
  case (Cons z zs)
  let ?s1 = "s\<lparr>st := zs @ v # rest, onSt := (onSt s)[z := False],
                sccId := (sccId s)[z := int (length (sccs s))]\<rparr>"
  from Cons.prems have "v \<notin> set zs" "z \<noteq> v" by auto
  from Cons.IH [OF this(1), of "c @ [z]" ?s1] obtain s' where
    s': "strongconnect_pop v (zs @ v # rest) (c @ [z]) ?s1 = Some ((c @ [z]) @ zs @ [v], s')"
      "st s' = rest" "index s' = index s" "idx s' = idx s" "low s' = low s" "sccs s' = sccs s"
      "length (onSt s') = length (onSt s)" "length (sccId s') = length (sccId s)"
      "\<forall>u<length (onSt s). onSt s' ! u = (u \<notin> set (zs @ [v]) \<and> (onSt s)[z := False] ! u)"
      "\<forall>u<length (sccId s). sccId s' ! u =
        (if u \<in> set (zs @ [v]) then int (length (sccs s)) else (sccId s)[z := int (length (sccs s))] ! u)"
    by auto
  have "strongconnect_pop v ((z # zs) @ v # rest) c s = Some (c @ (z # zs) @ [v], s')"
    using s'(1) \<open>z \<noteq> v\<close> by (simp add: Let_def)
  moreover have "\<forall>u<length (onSt s). onSt s' ! u = (u \<notin> set ((z # zs) @ [v]) \<and> onSt s ! u)"
    using s'(9) by (auto simp: nth_list_update_if)
  moreover have "\<forall>u<length (sccId s). sccId s' ! u =
        (if u \<in> set ((z # zs) @ [v]) then int (length (sccs s)) else sccId s ! u)"
    using s'(10) by (auto simp: nth_list_update_if)
  ultimately show ?case using s'(2-8) by blast
qed

lemma visited_cong: "idx s' = idx s \<Longrightarrow> visited s' = visited s"
  by (simp add: visited_def)

lemma loop_exit_pop:
  assumes li: "loop_inv N v s0 s" and eq: "low s ! v = idx s ! v"
  shows "\<exists>zs s3. st s = zs @ v # st s0 \<and>
           strongconnect_pop v (st s) [] s = Some (zs @ [v], s3) \<and>
           st s3 = st s0 \<and> idx s3 = idx s \<and> low s3 = low s \<and> sccs s3 = sccs s \<and>
           call_post N v s0 (s3\<lparr>sccs := sccs s3 @ [zs @ [v]]\<rparr>)"
proof -
  have wf0: "wf_state N s0" and wf: "wf_state N s" using li by (simp_all add: loop_inv_def)
  note len = wf_lengths [OF wf]
  obtain zs where zs: "st s = zs @ v # st s0" using li by (auto simp: loop_inv_def)
  have dist: "distinct (zs @ v # st s0 @ concat (sccs s))" using wf_distinct [OF wf] zs by simp
  then have vz: "v \<notin> set zs" by auto
  from strongconnect_pop_result [OF vz, of "st s0" "[]" s] obtain s3 where
    pop: "strongconnect_pop v (zs @ v # st s0) [] s = Some (zs @ [v], s3)"
    and s3: "st s3 = st s0" "index s3 = index s" "idx s3 = idx s" "low s3 = low s"
      "sccs s3 = sccs s" "length (onSt s3) = length (onSt s)" "length (sccId s3) = length (sccId s)"
    and on3: "\<And>u. u < N \<Longrightarrow> onSt s3 ! u = (u \<notin> set (zs @ [v]) \<and> onSt s ! u)"
    and id3: "\<And>u. u < N \<Longrightarrow> sccId s3 ! u =
        (if u \<in> set (zs @ [v]) then int (length (sccs s)) else sccId s ! u)"
    using len by auto
  let ?s4 = "s3\<lparr>sccs := sccs s3 @ [zs @ [v]]\<rparr>"
  have vis4: "visited ?s4 = visited s" using s3 by (simp add: visited_def)
  have wf4: "wf_state N ?s4"
  proof (rule wf_stateI)
    show "length (idx ?s4) = N" "length (low ?s4) = N" "length (onSt ?s4) = N"
      "length (sccId ?s4) = N"
      using len s3 by simp_all
    show "0 \<le> index ?s4" using wf_index_nonneg [OF wf] s3 by simp
    show "visited ?s4 = set (st ?s4) \<union> set (concat (sccs ?s4))"
      unfolding vis4 using wf_visited [OF wf] zs s3 by auto
    show "distinct (st ?s4 @ concat (sccs ?s4))" using dist s3 by auto
    show "[] \<notin> set (sccs ?s4)" using wf_nonempty [OF wf] s3 by simp
    show "onSt ?s4 ! u \<longleftrightarrow> u \<in> set (st ?s4)" if "u < N" for u
      using on3 [OF that] wf_onSt [OF wf that] zs dist s3 by auto
    show "idx ?s4 ! u < index ?s4" if "u \<in> visited ?s4" for u
      using that wf_idx_less [OF wf, of u] s3 unfolding vis4 by simp
    show "sccId ?s4 ! u = int k" if k: "k < length (sccs ?s4)" and u: "u \<in> set (sccs ?s4 ! k)" for k u
    proof (cases "k < length (sccs s)")
      case True
      then have uk: "u \<in> set (sccs s ! k)" using u s3 by (simp add: nth_append)
      then have "u \<in> set (concat (sccs s))" using True by (auto intro: nth_mem)
      then have "u \<notin> set (zs @ [v])" "u \<in> visited s" using dist wf_visited [OF wf] by auto
      then show ?thesis using id3 [of u] visited_less [OF wf] wf_sccId [OF wf True uk] by simp
    next
      case False
      then have "k = length (sccs s)" using k s3 by simp
      then have "u \<in> set (zs @ [v])" using u s3 by (simp add: nth_append)
      moreover from this have "u \<in> visited s" using wf_visited [OF wf] zs by auto
      ultimately show ?thesis using id3 [of u] visited_less [OF wf] \<open>k = length (sccs s)\<close> by simp
    qed
  qed
  have new: "index s0 \<le> idx s ! u" if "u \<in> visited s - visited s0" for u
    using li that by (cases "u = v") (auto simp: loop_inv_def)
  obtain cs where cs: "sccs s = sccs s0 @ cs" using li by (auto simp: loop_inv_def)
  have "call_post N v s0 ?s4"
    unfolding call_post_def vis4
    using wf4 li new eq s3 cs by (auto simp: loop_inv_def)
  with pop zs s3 show ?thesis by auto
qed

lemma card_unvisited_mono:
  "visited s \<subseteq> visited s' \<Longrightarrow> card ({..<N} - visited s') \<le> card ({..<N::nat} - visited s)"
  by (intro card_mono) auto

lemma strongconnect_edges_ok:
  assumes ok: "sc_ok N d sc"
  shows "loop_inv N v s0 s \<Longrightarrow>
     (\<forall>s'. strongconnect_edges sc v ws s = Some s' \<longrightarrow> loop_inv N v s0 s') \<and>
     (card ({..<N} - visited s) \<le> d \<longrightarrow> strongconnect_edges sc v ws s \<noteq> None)"
proof (induction ws arbitrary: s)
  case Nil
  then show ?case by simp
next
  case (Cons w ws)
  have wf: "wf_state N s" using Cons.prems by (simp add: loop_inv_def)
  note len = wf_lengths [OF wf]
  show ?case
  proof (cases "w < length (idx s) \<and> idx s ! w = - 1")
    case True
    then have w: "w < N" "w \<notin> visited s" using len by (simp_all add: visited_def)
    from ok wf w have post: "\<And>s'. sc w s = Some s' \<Longrightarrow> call_post N w s s'"
      and tot: "card ({..<N} - visited s) \<le> d \<Longrightarrow> sc w s \<noteq> None"
      unfolding sc_ok_def by blast+
    show ?thesis
    proof (cases "sc w s")
      case None
      then show ?thesis using True tot by auto
    next
      case (Some s1)
      let ?s2 = "s1\<lparr>low := (low s1)[v := (if low s1 ! v < low s1 ! w then low s1 ! v else low s1 ! w)]\<rparr>"
      have cp: "call_post N w s s1" by (rule post [OF Some])
      have li2: "loop_inv N v s0 ?s2" by (rule loop_inv_call [OF Cons.prems cp w(2)])
      have "visited s \<subseteq> visited ?s2" using cp by (simp add: call_post_def)
      then have "card ({..<N} - visited ?s2) \<le> card ({..<N} - visited s)"
        by (rule card_unvisited_mono)
      then show ?thesis using Cons.IH [OF li2] True Some by auto
    qed
  next
    case False
    show ?thesis
    proof (cases "w < length (onSt s) \<and> onSt s ! w")
      case True
      let ?s2 = "s\<lparr>low := (low s)[v := (if low s ! v < idx s ! w then low s ! v else idx s ! w)]\<rparr>"
      have li2: "loop_inv N v s0 ?s2" using loop_inv_back [OF Cons.prems] True len by simp
      show ?thesis using Cons.IH [OF li2] True False by auto
    next
      case F2: False
      show ?thesis using Cons.IH [OF Cons.prems] False F2 by auto
    qed
  qed
qed

lemma strongconnect_Suc:
  "strongconnect (Suc d) adj v s =
     (case strongconnect_edges (strongconnect d adj) v (adj ! v) (push v s) of
        None \<Rightarrow> None
      | Some s2 \<Rightarrow>
          if low s2 ! v = idx s2 ! v then
            (case strongconnect_pop v (st s2) [] s2 of
               None \<Rightarrow> None
             | Some (cmp, s3) \<Rightarrow> Some (s3\<lparr>sccs := sccs s3 @ [cmp]\<rparr>))
          else Some s2)"
  by (simp add: push_def Let_def)

declare strongconnect.simps(2) [simp del]

lemma strongconnect_ok: "sc_ok N d (strongconnect d adj)"
proof (induction d)
  case 0
  show ?case
  proof (unfold sc_ok_def, intro allI impI conjI)
    fix v s s'
    assume a: "wf_state N s \<and> v < N \<and> v \<notin> visited s"
    { assume "strongconnect 0 adj v s = Some s'" then show "call_post N v s s'" by simp }
    { assume "card ({..<N} - visited s) \<le> 0"
      then have "{..<N} - visited s = {}" by simp
      with a show "strongconnect 0 adj v s \<noteq> None" by auto }
  qed
next
  case (Suc d)
  show ?case
  proof (unfold sc_ok_def, intro allI impI conjI)
    fix v s s'
    assume a: "wf_state N s \<and> v < N \<and> v \<notin> visited s"
    then have li: "loop_inv N v s (push v s)" using loop_inv_init by blast
    note E = strongconnect_edges_ok [OF Suc li, of "adj ! v"]
    { assume r: "strongconnect (Suc d) adj v s = Some s'"
      then obtain s2 where s2: "strongconnect_edges (strongconnect d adj) v (adj ! v) (push v s) = Some s2"
        by (cases "strongconnect_edges (strongconnect d adj) v (adj ! v) (push v s)")
          (simp_all add: strongconnect_Suc)
      then have li2: "loop_inv N v s s2" using E by blast
      show "call_post N v s s'"
      proof (cases "low s2 ! v = idx s2 ! v")
        case True
        from loop_exit_pop [OF li2 True] r s2 True show ?thesis
          by (auto simp: strongconnect_Suc)
      next
        case False
        then have "s' = s2" using r s2 by (simp add: strongconnect_Suc)
        then show ?thesis using loop_exit_keep [OF li2 False] by simp
      qed }
    { assume c: "card ({..<N} - visited s) \<le> Suc d"
      have "visited (push v s) = insert v (visited s)" using visited_push a by blast
      then have "{..<N} - visited (push v s) = ({..<N} - visited s) - {v}" by auto
      moreover have "v \<in> {..<N} - visited s" using a by simp
      ultimately have "card ({..<N} - visited (push v s)) \<le> d" using c by simp
      then obtain s2 where s2: "strongconnect_edges (strongconnect d adj) v (adj ! v) (push v s) = Some s2"
        using E by auto
      then have li2: "loop_inv N v s s2" using E by blast
      show "strongconnect (Suc d) adj v s \<noteq> None"
      proof (cases "low s2 ! v = idx s2 ! v")
        case True
        from loop_exit_pop [OF li2 True] s2 True show ?thesis
          by (auto simp: strongconnect_Suc)
      next
        case False
        then show ?thesis using s2 by (simp add: strongconnect_Suc)
      qed }
  qed
qed

lemma tarjan_roots_ok:
  assumes ok: "sc_ok N d sc" and d: "N \<le> d"
  shows "wf_state N s \<Longrightarrow> st s = [] \<Longrightarrow> set vs \<subseteq> {..<N} \<Longrightarrow>
     \<exists>s'. tarjan_roots sc vs s = Some s' \<and> wf_state N s' \<and> st s' = [] \<and>
          visited s \<union> set vs \<subseteq> visited s'"
proof (induction vs arbitrary: s)
  case Nil
  then show ?case by simp
next
  case (Cons v vs)
  have v: "v < N" using Cons.prems by simp
  note len = wf_lengths [OF Cons.prems(1)]
  show ?case
  proof (cases "idx s ! v = - 1")
    case True
    then have nv: "v \<notin> visited s" by (simp add: visited_def)
    have "card ({..<N} - visited s) \<le> N" by (metis card_Diff_subset_Int card_lessThan diff_le_self finite_Int finite_lessThan)
    then have "card ({..<N} - visited s) \<le> d" using d by simp
    with ok Cons.prems(1) v nv obtain s1 where s1: "sc v s = Some s1" "call_post N v s s1"
      unfolding sc_ok_def by blast
    then have wf1: "wf_state N s1" and st1: "st s1 = []" and sub: "visited s \<subseteq> visited s1"
      and v1: "v \<in> visited s1"
      using Cons.prems(2) by (auto simp: call_post_def)
    from Cons.IH [OF wf1 st1] Cons.prems(3) obtain s' where
      "tarjan_roots sc vs s1 = Some s'" "wf_state N s'" "st s' = []" "visited s1 \<union> set vs \<subseteq> visited s'"
      by auto
    then show ?thesis using True s1 sub v1 by auto
  next
    case False
    then have "v \<in> visited s" using v len by (simp add: visited_def)
    moreover from Cons.IH [OF Cons.prems(1,2)] Cons.prems(3) obtain s' where
      "tarjan_roots sc vs s = Some s'" "wf_state N s'" "st s' = []" "visited s \<union> set vs \<subseteq> visited s'"
      by auto
    ultimately show ?thesis using False by auto
  qed
qed

lemma wf_tarjan_init: "wf_state N (tarjan_init N)"
  by (rule wf_stateI) (simp_all add: tarjan_init_def visited_def)

lemma tarjan_total:
  assumes "length adj \<le> d"
  shows "\<exists>ts. tarjan d adj = Some ts \<and> wf_state (length adj) ts \<and> st ts = [] \<and>
           visited ts = {..<length adj}"
proof -
  have "st (tarjan_init (length adj)) = []" by (simp add: tarjan_init_def)
  moreover have "set [0..<length adj] \<subseteq> {..<length adj}" by auto
  ultimately obtain ts where ts: "tarjan d adj = Some ts" "wf_state (length adj) ts" "st ts = []"
    "visited (tarjan_init (length adj)) \<union> set [0..<length adj] \<subseteq> visited ts"
    using tarjan_roots_ok [OF strongconnect_ok assms wf_tarjan_init, of "[0..<length adj]" adj]
    unfolding tarjan_def by blast
  then have "{..<length adj} \<subseteq> visited ts" by auto
  moreover have "visited ts \<subseteq> {..<length adj}" using visited_less [OF ts(2)] by auto
  ultimately show ?thesis using ts by auto
qed

lemma tarjan_partition:
  assumes "tarjan d adj = Some ts" "length adj \<le> d"
  shows "distinct (concat (sccs ts)) \<and> set (concat (sccs ts)) = {..<length adj} \<and>
         [] \<notin> set (sccs ts)"
  using tarjan_total [OF assms(2)] assms(1) wf_distinct wf_visited wf_nonempty by fastforce

section \<open>The refactored SCC engine computes the same components\<close>

lemma js_min: "(if a < b then a else b) = min a (b::int)"
  by auto

lemma strongConnect_pop_sim:
  "strongconnect_pop v stk c s = Some (cmp, s') \<Longrightarrow> same_search s t \<Longrightarrow>
     \<exists>t'. strongConnect_pop v stk c t = (cmp, t') \<and> same_search s' t'"
proof (induction stk arbitrary: c s t)
  case Nil
  then show ?case by simp
next
  case (Cons w rest)
  let ?s1 = "s\<lparr>st := rest, onSt := (onSt s)[w := False], sccId := (sccId s)[w := int (length (sccs s))]\<rparr>"
  let ?t1 = "t\<lparr>st := rest, onSt := (onSt t)[w := False]\<rparr>"
  have rel: "same_search ?s1 ?t1" using Cons.prems(2) by (simp add: same_search_def)
  show ?case
  proof (cases "w = v")
    case True
    then show ?thesis using Cons.prems(1) rel by (auto simp: Let_def)
  next
    case False
    then have "strongconnect_pop v rest (c @ [w]) ?s1 = Some (cmp, s')"
      using Cons.prems(1) by (simp add: Let_def)
    from Cons.IH [OF this rel] False show ?thesis by (simp add: Let_def)
  qed
qed

lemma strongConnect_edges_sim:
  assumes sc: "\<And>w s t s'. sc w s = Some s' \<Longrightarrow> same_search s t \<Longrightarrow>
                 \<exists>t'. sc' w t = Some t' \<and> same_search s' t'"
  shows "strongconnect_edges sc v ws s = Some s' \<Longrightarrow> same_search s t \<Longrightarrow>
     \<exists>t'. strongConnect_edges sc' v ws t = Some t' \<and> same_search s' t'"
proof (induction ws arbitrary: s t)
  case Nil
  then show ?case by simp
next
  case (Cons w ws)
  have eqs: "idx t = idx s" "low t = low s" "onSt t = onSt s"
    using Cons.prems(2) by (simp_all add: same_search_def)
  show ?case
  proof (cases "w < length (idx s) \<and> idx s ! w = - 1")
    case True
    then obtain s1 where s1: "sc w s = Some s1"
      using Cons.prems(1) by (cases "sc w s") auto
    from sc [OF s1 Cons.prems(2)] obtain t1 where t1: "sc' w t = Some t1" "same_search s1 t1"
      by blast
    let ?s2 = "s1\<lparr>low := (low s1)[v := (if low s1 ! v < low s1 ! w then low s1 ! v else low s1 ! w)]\<rparr>"
    let ?t2 = "t1\<lparr>low := (low t1)[v := min (low t1 ! v) (low t1 ! w)]\<rparr>"
    have rel: "same_search ?s2 ?t2" using t1(2) by (simp add: same_search_def js_min)
    have "strongconnect_edges sc v ws ?s2 = Some s'" using Cons.prems(1) True s1 by simp
    from Cons.IH [OF this rel] True t1(1) eqs show ?thesis by simp
  next
    case False
    show ?thesis
    proof (cases "w < length (onSt s) \<and> onSt s ! w")
      case True
      let ?s2 = "s\<lparr>low := (low s)[v := (if low s ! v < idx s ! w then low s ! v else idx s ! w)]\<rparr>"
      let ?t2 = "t\<lparr>low := (low t)[v := min (low t ! v) (idx t ! w)]\<rparr>"
      have rel: "same_search ?s2 ?t2" using Cons.prems(2) by (simp add: same_search_def js_min)
      have "strongconnect_edges sc v ws ?s2 = Some s'" using Cons.prems(1) True False by simp
      from Cons.IH [OF this rel] True False eqs show ?thesis by auto
    next
      case F2: False
      then have "strongconnect_edges sc v ws s = Some s'" using Cons.prems(1) False by auto
      from Cons.IH [OF this Cons.prems(2)] False F2 eqs show ?thesis by auto
    qed
  qed
qed

lemma strongConnect_sim:
  "strongconnect d adj v s = Some s' \<Longrightarrow> same_search s t \<Longrightarrow>
     \<exists>t'. strongConnect d adj v t = Some t' \<and> same_search s' t'"
proof (induction d arbitrary: v s t s')
  case 0
  then show ?case by simp
next
  case (Suc d)
  let ?t1 = "t\<lparr>idx := (idx t)[v := index t], low := (low t)[v := index t],
                 index := index t + 1, st := v # st t, onSt := (onSt t)[v := True]\<rparr>"
  have rel1: "same_search (push v s) ?t1" using Suc.prems(2) by (simp add: same_search_def push_def)
  from Suc.prems(1) obtain s2 where
    s2: "strongconnect_edges (strongconnect d adj) v (adj ! v) (push v s) = Some s2"
    by (cases "strongconnect_edges (strongconnect d adj) v (adj ! v) (push v s)")
      (simp_all add: strongconnect_Suc)
  have "\<exists>t2. strongConnect_edges (strongConnect d adj) v (adj ! v) ?t1 = Some t2 \<and>
      same_search s2 t2"
  proof (rule strongConnect_edges_sim [where sc = "strongconnect d adj" and s = "push v s"])
    show "\<exists>t'. strongConnect d adj w t = Some t' \<and> same_search s' t'"
      if "strongconnect d adj w s = Some s'" "same_search s t" for w s t s'
      using Suc.IH that by blast
    show "strongconnect_edges (strongconnect d adj) v (adj ! v) (push v s) = Some s2" by (rule s2)
    show "same_search (push v s) ?t1" by (rule rel1)
  qed
  then obtain t2 where t2: "strongConnect_edges (strongConnect d adj) v (adj ! v) ?t1 = Some t2"
    "same_search s2 t2"
    by blast
  have eqs: "low t2 = low s2" "idx t2 = idx s2" "st t2 = st s2"
    using t2(2) by (simp_all add: same_search_def)
  show ?case
  proof (cases "low s2 ! v = idx s2 ! v")
    case True
    then obtain cmp s3 where p: "strongconnect_pop v (st s2) [] s2 = Some (cmp, s3)"
      and s': "s' = s3\<lparr>sccs := sccs s3 @ [cmp]\<rparr>"
      using Suc.prems(1) s2
      by (cases "strongconnect_pop v (st s2) [] s2") (auto simp: strongconnect_Suc)
    from strongConnect_pop_sim [OF p t2(2)] obtain t3 where
      t3: "strongConnect_pop v (st s2) [] t2 = (cmp, t3)" "same_search s3 t3"
      by blast
    have "same_search s' (t3\<lparr>sccs := sccs t3 @ [cmp]\<rparr>)"
      using t3(2) s' by (simp add: same_search_def)
    then show ?thesis using t2(1) t3(1) True eqs by (simp add: Let_def)
  next
    case False
    then have "s' = s2" using Suc.prems(1) s2 by (simp add: strongconnect_Suc)
    then show ?thesis using t2 False eqs by (simp add: Let_def)
  qed
qed

lemma tarjan_roots_sim:
  assumes sc: "\<And>w s t s'. sc w s = Some s' \<Longrightarrow> same_search s t \<Longrightarrow>
                 \<exists>t'. sc' w t = Some t' \<and> same_search s' t'"
  shows "tarjan_roots sc vs s = Some s' \<Longrightarrow> same_search s t \<Longrightarrow>
     \<exists>t'. tarjan_roots sc' vs t = Some t' \<and> same_search s' t'"
proof (induction vs arbitrary: s t)
  case Nil
  then show ?case by simp
next
  case (Cons v vs)
  have eqs: "idx t = idx s" using Cons.prems(2) by (simp add: same_search_def)
  show ?case
  proof (cases "idx s ! v = - 1")
    case True
    then obtain s1 where s1: "sc v s = Some s1" using Cons.prems(1) by (cases "sc v s") auto
    from sc [OF s1 Cons.prems(2)] obtain t1 where t1: "sc' v t = Some t1" "same_search s1 t1"
      by blast
    have "tarjan_roots sc vs s1 = Some s'" using Cons.prems(1) True s1 by simp
    from Cons.IH [OF this t1(2)] True t1(1) eqs show ?thesis by simp
  next
    case False
    then have "tarjan_roots sc vs s = Some s'" using Cons.prems(1) by simp
    from Cons.IH [OF this Cons.prems(2)] False eqs show ?thesis by simp
  qed
qed

lemma computeStronglyConnectedComponents_eq:
  assumes "tarjan d adj = Some ts"
  shows "computeStronglyConnectedComponents d adj = Some (sccs ts)"
proof -
  have rel: "same_search (tarjan_init (length adj)) ((tarjan_init (length adj))\<lparr>sccId := []\<rparr>)"
    by (simp add: same_search_def)
  have "\<exists>t'. tarjan_roots (strongConnect d adj) [0..<length adj]
      ((tarjan_init (length adj))\<lparr>sccId := []\<rparr>) = Some t' \<and> same_search ts t'"
  proof (rule tarjan_roots_sim [where sc = "strongconnect d adj" and s = "tarjan_init (length adj)"])
    show "\<exists>t'. strongConnect d adj w t = Some t' \<and> same_search s' t'"
      if "strongconnect d adj w s = Some s'" "same_search s t" for w s t s'
      using strongConnect_sim that by blast
    show "tarjan_roots (strongconnect d adj) [0..<length adj] (tarjan_init (length adj)) = Some ts"
      using assms by (simp add: tarjan_def)
    show "same_search (tarjan_init (length adj)) ((tarjan_init (length adj))\<lparr>sccId := []\<rparr>)"
      by (rule rel)
  qed
  then obtain t' where "tarjan_roots (strongConnect d adj) [0..<length adj]
      ((tarjan_init (length adj))\<lparr>sccId := []\<rparr>) = Some t'" "same_search ts t'"
    by blast
  then show ?thesis by (simp add: computeStronglyConnectedComponents_def same_search_def)
qed

lemma chain_needs_depth:
  "v + d < n \<Longrightarrow> length (idx s) = n \<Longrightarrow> (\<forall>u. v \<le> u \<and> u < n \<longrightarrow> idx s ! u = - 1) \<Longrightarrow>
     strongconnect d (chain n) v s = None"
proof (induction d arbitrary: v s)
  case 0
  then show ?case by simp
next
  case (Suc d)
  have adjv: "chain n ! v = [Suc v]" using Suc.prems(1) by (simp add: chain_def)
  have a: "Suc v + d < n" using Suc.prems(1) by simp
  have b: "length (idx (push v s)) = n" using Suc.prems(2) by (simp add: push_def)
  have c: "\<forall>u. Suc v \<le> u \<and> u < n \<longrightarrow> idx (push v s) ! u = - 1"
    using Suc.prems(3) by (auto simp: push_def)
  have "strongconnect d (chain n) (Suc v) (push v s) = None" by (rule Suc.IH [OF a b c])
  moreover have "Suc v < length (idx (push v s)) \<and> idx (push v s) ! Suc v = - 1"
    using a b c by auto
  ultimately show ?case by (simp add: strongconnect_Suc adjv)
qed

lemma chain_tarjan_None: "d < n \<Longrightarrow> tarjan d (chain n) = None"
proof -
  assume d: "d < n"
  have len: "length (chain n) = n" by (simp add: chain_def)
  have upt: "[0..<n] = 0 # [1..<n]" using d by (simp add: upt_conv_Cons)
  have sc: "strongconnect d (chain n) 0 (tarjan_init n) = None"
    using d by (intro chain_needs_depth) (simp_all add: tarjan_init_def)
  have i0: "idx (tarjan_init n) ! 0 = - 1" using d by (simp add: tarjan_init_def)
  have "tarjan d (chain n) = tarjan_roots (strongconnect d (chain n)) (0 # [1..<n]) (tarjan_init n)"
    unfolding tarjan_def len using upt by simp
  also have "\<dots> = None" using sc i0 by simp
  finally show ?thesis .
qed

lemma chain_needs_depth_refactored:
  "v + d < n \<Longrightarrow> length (idx s) = n \<Longrightarrow> (\<forall>u. v \<le> u \<and> u < n \<longrightarrow> idx s ! u = - 1) \<Longrightarrow>
     strongConnect d (chain n) v s = None"
proof (induction d arbitrary: v s)
  case 0
  then show ?case by simp
next
  case (Suc d)
  let ?s1 = "s\<lparr>idx := (idx s)[v := index s], low := (low s)[v := index s],
                 index := index s + 1, st := v # st s, onSt := (onSt s)[v := True]\<rparr>"
  have adjv: "chain n ! v = [Suc v]" using Suc.prems(1) by (simp add: chain_def)
  have a: "Suc v + d < n" using Suc.prems(1) by simp
  have b: "length (idx ?s1) = n" using Suc.prems(2) by simp
  have c: "\<forall>u. Suc v \<le> u \<and> u < n \<longrightarrow> idx ?s1 ! u = - 1"
    using Suc.prems(3) by auto
  have "strongConnect d (chain n) (Suc v) ?s1 = None" by (rule Suc.IH [OF a b c])
  moreover have "Suc v < length (idx ?s1) \<and> idx ?s1 ! Suc v = - 1"
    using a b c by auto
  ultimately show ?case by (simp add: adjv Let_def)
qed

lemma chain_compute_None: "d < n \<Longrightarrow> computeStronglyConnectedComponents d (chain n) = None"
proof -
  assume d: "d < n"
  let ?t0 = "(tarjan_init n)\<lparr>sccId := []\<rparr>"
  have len: "length (chain n) = n" by (simp add: chain_def)
  have upt: "[0..<n] = 0 # [1..<n]" using d by (simp add: upt_conv_Cons)
  have sc: "strongConnect d (chain n) 0 ?t0 = None"
    using d by (intro chain_needs_depth_refactored) (simp_all add: tarjan_init_def)
  have i0: "idx ?t0 ! 0 = - 1" using d by (simp add: tarjan_init_def)
  have "tarjan_roots (strongConnect d (chain n)) (0 # [1..<n]) ?t0 = None" using sc i0 by simp
  then show ?thesis unfolding computeStronglyConnectedComponents_def len upt by simp
qed

lemma compute_total: "length adj \<le> d \<Longrightarrow> computeStronglyConnectedComponents d adj \<noteq> None"
  using tarjan_total [of adj d] computeStronglyConnectedComponents_eq [of d adj] by auto

section \<open>The cycle extractor\<close>

lemma card_unseen_mono:
  "finite C \<Longrightarrow> A \<subseteq> B \<Longrightarrow> card (C - B) \<le> card (C - A)"
  by (intro card_mono) auto

lemma dfs_edges_ok:
  assumes ok: "dfs_ok adj start C d rc" and fin: "finite C"
  shows "dfs_loop adj start C u stk0 seen0 P s \<Longrightarrow>
     (\<forall>b s'. dfs_edges rc start C ws s = Some (b, s') \<longrightarrow>
        dfs_inv start C s' \<and> seen s \<subseteq> seen s' \<and>
        (b \<longrightarrow> 1 < length (stack s')) \<and>
        (\<not> b \<longrightarrow> dfs_loop adj start C u stk0 seen0 (P \<union> set ws) s')) \<and>
     (card (C - seen s) \<le> d \<longrightarrow> dfs_edges rc start C ws s \<noteq> None)"
proof (induction ws arbitrary: s P)
  case Nil
  then show ?case by (simp add: dfs_loop_def)
next
  case (Cons w ws)
  note L = Cons.prems
  have inv: "dfs_inv start C s" and stk: "stack s = u # stk0" using L by (simp_all add: dfs_loop_def)
  have sets: "P \<union> set (w # ws) = insert w P \<union> set ws" by simp
  show ?case
  proof (cases "w \<in> C")
    case False
    then have E: "dfs_edges rc start C (w # ws) s = dfs_edges rc start C ws s" by simp
    have "dfs_loop adj start C u stk0 seen0 (insert w P) s"
      using L False by (simp add: dfs_loop_def)
    from Cons.IH [OF this] show ?thesis unfolding E sets .
  next
    case wC: True
    show ?thesis
    proof (cases "w = start \<and> 1 < length (stack s)")
      case True
      then have E: "dfs_edges rc start C (w # ws) s = Some (True, s)" using wC by simp
      show ?thesis unfolding E using inv True by simp
    next
      case nf: False
      then have ws0: "w = start \<Longrightarrow> stk0 = []" using stk by auto
      show ?thesis
      proof (cases "w \<in> seen s")
        case True
        then have E: "dfs_edges rc start C (w # ws) s = dfs_edges rc start C ws s"
          using wC nf by auto
        have "dfs_loop adj start C u stk0 seen0 (insert w P) s"
          using L ws0 True by (simp add: dfs_loop_def)
        from Cons.IH [OF this] show ?thesis unfolding E sets .
      next
        case False
        have pre: "dfs_inv start C s \<and> w \<in> C \<and> w \<notin> seen s \<and> (stack s = [] \<longrightarrow> w = start)"
          using inv wC False stk by simp
        with ok have post: "\<And>b s'. rc w s = Some (b, s') \<Longrightarrow> dfs_post adj start C w s b s'"
          and tot: "card (C - seen s) \<le> d \<Longrightarrow> rc w s \<noteq> None"
          unfolding dfs_ok_def by blast+
        have E0: "dfs_edges rc start C (w # ws) s =
            (case rc w s of None \<Rightarrow> None
             | Some (found, s') \<Rightarrow> if found then Some (True, s') else dfs_edges rc start C ws s')"
          using wC nf False by auto
        show ?thesis
        proof (cases "rc w s")
          case None
          then have E: "dfs_edges rc start C (w # ws) s = None" using E0 by simp
          show ?thesis unfolding E using tot None by auto
        next
          case (Some r)
          obtain b s1 where r: "r = (b, s1)" by (cases r)
          have p: "dfs_post adj start C w s b s1" using post Some r by simp
          show ?thesis
          proof (cases b)
            case True
            then have E: "dfs_edges rc start C (w # ws) s = Some (True, s1)"
              using E0 Some r by simp
            show ?thesis unfolding E using p True by (simp add: dfs_post_def)
          next
            case fb: False
            then have E: "dfs_edges rc start C (w # ws) s = dfs_edges rc start C ws s1"
              using E0 Some r by simp
            have s1: "dfs_inv start C s1" "seen s \<subseteq> seen s1" "stack s1 = stack s" "w \<in> seen s1"
              using p fb by (simp_all add: dfs_post_def)
            have cl: "y \<in> seen s1 \<and> y \<noteq> start"
              if "x \<in> seen s1 - seen s" "(x, y) \<in> comp_edges adj C" for x y
            proof -
              from p fb that have "y \<in> seen s1 \<and> (y = start \<longrightarrow> x = w \<and> stack s = [])"
                unfolding dfs_post_def by blast
              then show ?thesis using stk by auto
            qed
            have cl0: "y \<in> seen s \<and> y \<noteq> start"
              if "x \<in> seen s - insert u seen0" "(x, y) \<in> comp_edges adj C" for x y
              using L that unfolding dfs_loop_def by blast
            have P0: "y \<in> seen s \<and> (y = start \<longrightarrow> stk0 = [])" if "y \<in> P" "y \<in> C" for y
              using L that unfolding dfs_loop_def by blast
            have sub0: "insert u seen0 \<subseteq> seen s" using L unfolding dfs_loop_def by blast
            have L1: "dfs_loop adj start C u stk0 seen0 (insert w P) s1"
              unfolding dfs_loop_def
            proof (intro conjI ballI allI impI)
              show "dfs_inv start C s1" by (rule s1)
              show "stack s1 = u # stk0" using s1 stk by simp
              show "insert u seen0 \<subseteq> seen s1" using sub0 s1(2) by blast
              show "y \<in> seen s1" if "x \<in> seen s1 - insert u seen0" "(x, y) \<in> comp_edges adj C" for x y
                using that cl [of x y] cl0 [of x y] s1(2) by (cases "x \<in> seen s") auto
              show "y \<noteq> start" if "x \<in> seen s1 - insert u seen0" "(x, y) \<in> comp_edges adj C" for x y
                using that cl [of x y] cl0 [of x y] s1(2) by (cases "x \<in> seen s") auto
              show "y \<in> seen s1" if "y \<in> insert w P" "y \<in> C" for y
                using that s1(2,4) P0 [of y] by auto
              show "stk0 = []" if "y \<in> insert w P" "y \<in> C" "y = start" for y
                using that ws0 P0 [of y] by auto
            qed
            have c: "card (C - seen s1) \<le> card (C - seen s)"
              by (rule card_unseen_mono [OF fin s1(2)])
            from Cons.IH [OF L1] have
              A: "\<And>b s'. dfs_edges rc start C ws s1 = Some (b, s') \<Longrightarrow>
                    dfs_inv start C s' \<and> seen s1 \<subseteq> seen s' \<and> (b \<longrightarrow> 1 < length (stack s')) \<and>
                    (\<not> b \<longrightarrow> dfs_loop adj start C u stk0 seen0 (insert w P \<union> set ws) s')"
              and B: "card (C - seen s1) \<le> d \<Longrightarrow> dfs_edges rc start C ws s1 \<noteq> None"
              by blast+
            show ?thesis unfolding E sets
            proof (intro conjI allI impI)
              fix b' s'
              assume r': "dfs_edges rc start C ws s1 = Some (b', s')"
              show "dfs_inv start C s'" using A [OF r'] by blast
              show "seen s \<subseteq> seen s'" using A [OF r'] s1(2) by blast
              { assume b' then show "1 < length (stack s')" using A [OF r'] by blast }
              { assume "\<not> b'"
                then show "dfs_loop adj start C u stk0 seen0 (insert w P \<union> set ws) s'"
                  using A [OF r'] by blast }
            next
              assume "card (C - seen s) \<le> d"
              then show "dfs_edges rc start C ws s1 \<noteq> None" using B c by simp
            qed
          qed
        qed
      qed
    qed
  qed
qed

lemma dfs_ok_dfs:
  assumes sub: "C \<subseteq> {..<length adj}"
  shows "dfs_ok adj start C d (dfs d adj start C)"
proof (induction d)
  case 0
  have fin: "finite C" using sub finite_subset by blast
  show ?case
  proof (unfold dfs_ok_def, intro allI impI conjI)
    fix u s b s'
    assume a: "dfs_inv start C s \<and> u \<in> C \<and> u \<notin> seen s \<and> (stack s = [] \<longrightarrow> u = start)"
    { assume "dfs 0 adj start C u s = Some (b, s')"
      then show "dfs_post adj start C u s b s'" by simp }
    { assume "card (C - seen s) \<le> 0"
      then have "C - seen s = {}" using fin by simp
      then show "dfs 0 adj start C u s \<noteq> None" using a by auto }
  qed
next
  case (Suc d)
  have fin: "finite C" using sub finite_subset by blast
  show ?case
  proof (unfold dfs_ok_def, intro allI impI conjI)
    fix u s b s'
    assume a: "dfs_inv start C s \<and> u \<in> C \<and> u \<notin> seen s \<and> (stack s = [] \<longrightarrow> u = start)"
    let ?s1 = "s\<lparr>seen := insert u (seen s), stack := u # stack s\<rparr>"
    have u: "u < length adj" "u \<in> C" "u \<notin> seen s" using a sub by auto
    have inv: "dfs_inv start C s" using a by simp
    have inv1: "dfs_inv start C ?s1"
      using a unfolding dfs_inv_def by auto
    have L: "dfs_loop adj start C u (stack s) (seen s) {} ?s1"
      unfolding dfs_loop_def using inv1 by simp
    note E = dfs_edges_ok [OF Suc fin L, of "adj ! u"]
    have D: "dfs (Suc d) adj start C u s =
        (case dfs_edges (dfs d adj start C) start C (adj ! u) ?s1 of
           None \<Rightarrow> None
         | Some (found, s') \<Rightarrow>
             if found then Some (True, s') else Some (False, s'\<lparr>stack := tl (stack s')\<rparr>))"
      using u by simp
    { assume r: "dfs (Suc d) adj start C u s = Some (b, s')"
      then obtain b2 s2 where
        r2: "dfs_edges (dfs d adj start C) start C (adj ! u) ?s1 = Some (b2, s2)"
        unfolding D by (cases "dfs_edges (dfs d adj start C) start C (adj ! u) ?s1") auto
      from E r2 have e: "dfs_inv start C s2" "seen ?s1 \<subseteq> seen s2" "b2 \<Longrightarrow> 1 < length (stack s2)"
        "\<not> b2 \<Longrightarrow> dfs_loop adj start C u (stack s) (seen s) ({} \<union> set (adj ! u)) s2"
        by blast+
      show "dfs_post adj start C u s b s'"
      proof (cases b2)
        case True
        then have "b = True" "s' = s2" using r r2 unfolding D by simp_all
        moreover have "seen s \<subseteq> seen s2" using e(2) by auto
        ultimately show ?thesis using e(1,3) True unfolding dfs_post_def by simp
      next
        case False
        then have bs: "b = False" "s' = s2\<lparr>stack := tl (stack s2)\<rparr>"
          using r r2 unfolding D by simp_all
        note L2 = e(4) [OF False]
        have stk2: "stack s2 = u # stack s" using L2 unfolding dfs_loop_def by blast
        have cl: "y \<in> seen s2 \<and> y \<noteq> start"
          if "x \<in> seen s2 - insert u (seen s)" "(x, y) \<in> comp_edges adj C" for x y
          using L2 that unfolding dfs_loop_def by blast
        have P: "y \<in> seen s2 \<and> (y = start \<longrightarrow> stack s = [])" if "y \<in> set (adj ! u)" "y \<in> C" for y
          using L2 that unfolding dfs_loop_def by blast
        have sub2: "seen s \<subseteq> seen s2" "u \<in> seen s2" using e(2) by auto
        have inv': "dfs_inv start C s'"
          using inv sub2(1) unfolding bs dfs_inv_def stk2 by auto
        have clo: "y \<in> seen s' \<and> (y = start \<longrightarrow> x = u \<and> stack s = [])"
          if "x \<in> seen s' - seen s" "(x, y) \<in> comp_edges adj C" for x y
        proof (cases "x = u")
          case True
          then have "y \<in> set (adj ! u)" "y \<in> C" using that(2) by (auto simp: comp_edges_def)
          from P [OF this] True show ?thesis unfolding bs by simp
        next
          case False
          then have "x \<in> seen s2 - insert u (seen s)" using that(1) unfolding bs by simp
          from cl [OF this that(2)] show ?thesis unfolding bs by simp
        qed
        have "stack s' = stack s" "u \<in> seen s'" "seen s \<subseteq> seen s'"
          using sub2 stk2 unfolding bs by simp_all
        then show ?thesis
          unfolding dfs_post_def using inv' clo \<open>b = False\<close> by blast
      qed }
    { assume c: "card (C - seen s) \<le> Suc d"
      have "C - seen ?s1 = (C - seen s) - {u}" by auto
      moreover have "u \<in> C - seen s" using u by simp
      ultimately have "card (C - seen ?s1) \<le> d" using c fin by simp
      then have "dfs_edges (dfs d adj start C) start C (adj ! u) ?s1 \<noteq> None" using E by blast
      then show "dfs (Suc d) adj start C u s \<noteq> None" unfolding D by (auto split: if_splits) }
  qed
qed

lemma findCycleFrom_result:
  assumes sub: "C \<subseteq> {..<length adj}" and st: "start \<in> C"
  shows "\<exists>r. findCycleFrom adj start C = Some r \<and>
     (\<forall>cyc. r = Some cyc \<longrightarrow>
        hd cyc = start \<and> last cyc = start \<and> distinct (butlast cyc) \<and> set cyc \<subseteq> C \<and>
        3 \<le> length cyc) \<and>
     (r = None \<longrightarrow>
        (\<exists>S. start \<in> S \<and>
           (\<forall>x\<in>S. \<forall>y. (x, y) \<in> comp_edges adj C \<longrightarrow> y \<in> S \<and> (y = start \<longrightarrow> x = start))))"
proof -
  let ?s0 = "\<lparr>seen = {}, stack = []\<rparr>"
  have fin: "finite C" using sub finite_subset by blast
  have "card C \<le> card {..<length adj}" by (rule card_mono) (use sub in auto)
  then have c: "card (C - seen ?s0) \<le> length adj" by simp
  have pre: "dfs_inv start C ?s0 \<and> start \<in> C \<and> start \<notin> seen ?s0 \<and> (stack ?s0 = [] \<longrightarrow> start = start)"
    using st by (simp add: dfs_inv_def)
  from dfs_ok_dfs [OF sub, of start "length adj"] pre have
    post: "\<And>b s'. dfs (length adj) adj start C start ?s0 = Some (b, s') \<Longrightarrow>
        dfs_post adj start C start ?s0 b s'"
    and tot: "card (C - seen ?s0) \<le> length adj \<Longrightarrow> dfs (length adj) adj start C start ?s0 \<noteq> None"
    unfolding dfs_ok_def by blast+
  from tot [OF c] obtain b s' where r: "dfs (length adj) adj start C start ?s0 = Some (b, s')"
    by (cases "dfs (length adj) adj start C start ?s0") auto
  note p = post [OF r]
  show ?thesis
  proof (cases b)
    case True
    then have inv: "dfs_inv start C s'" and len: "1 < length (stack s')"
      using p by (simp_all add: dfs_post_def)
    then have ne: "stack s' \<noteq> []" by auto
    have f: "findCycleFrom adj start C = Some (Some (rev (stack s') @ [start]))"
      using r True by (simp add: findCycleFrom_def)
    have "hd (rev (stack s') @ [start]) = start"
      using inv ne by (simp add: dfs_inv_def hd_rev)
    moreover have "distinct (butlast (rev (stack s') @ [start]))"
      using inv by (simp add: dfs_inv_def butlast_append)
    moreover have "set (rev (stack s') @ [start]) \<subseteq> C" using inv st by (simp add: dfs_inv_def)
    moreover have "3 \<le> length (rev (stack s') @ [start])" using len by simp
    ultimately show ?thesis using f by simp
  next
    case False
    then have f: "findCycleFrom adj start C = Some None" using r by (simp add: findCycleFrom_def)
    from p False have "start \<in> seen s'"
      and "\<forall>x\<in>seen s'. \<forall>y. (x, y) \<in> comp_edges adj C \<longrightarrow> y \<in> seen s' \<and> (y = start \<longrightarrow> x = start)"
      by (auto simp: dfs_post_def)
    then show ?thesis using f by blast
  qed
qed

lemma rtrancl_first_other:
  "(a, b) \<in> r\<^sup>* \<Longrightarrow> a \<noteq> b \<Longrightarrow> \<exists>w. (a, w) \<in> r \<and> w \<noteq> a \<and> (w, b) \<in> r\<^sup>*"
proof (induction rule: converse_rtrancl_induct)
  case base
  then show ?case by simp
next
  case (step y z)
  show ?case
  proof (cases "z = y")
    case True
    then show ?thesis using step by auto
  next
    case False
    then show ?thesis using step by blast
  qed
qed

lemma closed_rtrancl:
  assumes "(w, b) \<in> r\<^sup>*" "w \<in> K" "\<And>x y. x \<in> K \<Longrightarrow> (x, y) \<in> r \<Longrightarrow> y \<in> K"
  shows "b \<in> K"
  using assms by (induction rule: rtrancl_induct) auto

lemma findCycleFrom_finds:
  assumes sub: "C \<subseteq> {..<length adj}" and st: "start \<in> C"
    and two: "\<exists>b\<in>C. b \<noteq> start"
    and reach: "\<forall>a\<in>C. \<forall>b\<in>C. (a, b) \<in> (comp_edges adj C)\<^sup>*"
  shows "\<exists>cyc. findCycleFrom adj start C = Some (Some cyc)"
proof -
  from findCycleFrom_result [OF sub st] obtain r where r: "findCycleFrom adj start C = Some r"
    and none: "r = None \<Longrightarrow>
        (\<exists>S. start \<in> S \<and>
           (\<forall>x\<in>S. \<forall>y. (x, y) \<in> comp_edges adj C \<longrightarrow> y \<in> S \<and> (y = start \<longrightarrow> x = start)))"
    by blast
  have "r \<noteq> None"
  proof
    assume "r = None"
    from none [OF this] obtain S where S: "start \<in> S"
      and cl: "\<And>x y. x \<in> S \<Longrightarrow> (x, y) \<in> comp_edges adj C \<Longrightarrow> y \<in> S \<and> (y = start \<longrightarrow> x = start)"
      by blast
    from two obtain b where b: "b \<in> C" "b \<noteq> start" by blast
    with reach st have "(start, b) \<in> (comp_edges adj C)\<^sup>*" by blast
    from rtrancl_first_other [OF this] b(2) obtain w where
      w: "(start, w) \<in> comp_edges adj C" "w \<noteq> start" by blast
    then have wC: "w \<in> C" by (simp add: comp_edges_def)
    have wK: "w \<in> S - {start}" using cl [OF S w(1)] w(2) by simp
    have "(w, start) \<in> (comp_edges adj C)\<^sup>*" using reach wC st by blast
    then have "start \<in> S - {start}"
    proof (rule closed_rtrancl [OF _ wK])
      fix x y
      assume "x \<in> S - {start}" "(x, y) \<in> comp_edges adj C"
      then show "y \<in> S - {start}" using cl [of x y] by auto
    qed
    then show False by simp
  qed
  with r show ?thesis by auto
qed

lemma path_inv_Cons:
  "path_inv adj C (u # stk) \<longleftrightarrow>
     (stk = [] \<or> (hd stk, u) \<in> comp_edges adj C) \<and> path_inv adj C stk"
  by (cases stk) (simp_all add: path_inv_def)

lemma path_inv_tl: "path_inv adj C stk \<Longrightarrow> path_inv adj C (tl stk)"
  by (cases stk) (auto simp: path_inv_Cons)

lemma dfs_edges_path:
  assumes rc: "path_ok adj start C rc"
    and u: "u \<in> C" "u < length adj" and st: "start \<in> C"
  shows "path_inv adj C (stack s) \<Longrightarrow> stack s = u # stk0 \<Longrightarrow> set ws \<subseteq> set (adj ! u) \<Longrightarrow>
     dfs_edges rc start C ws s = Some (b, s') \<Longrightarrow>
     path_inv adj C (stack s') \<and>
     (b \<longrightarrow> stack s' \<noteq> [] \<and> (hd (stack s'), start) \<in> comp_edges adj C) \<and>
     (\<not> b \<longrightarrow> stack s' = u # stk0)"
proof (induction ws arbitrary: s)
  case Nil
  then show ?case by simp
next
  case (Cons w ws)
  have sub: "set ws \<subseteq> set (adj ! u)" and w: "w \<in> set (adj ! u)" using Cons.prems(3) by simp_all
  show ?case
  proof (cases "w \<in> C")
    case False
    then have "dfs_edges rc start C ws s = Some (b, s')" using Cons.prems(4) by simp
    from Cons.IH [OF Cons.prems(1,2) sub this] show ?thesis .
  next
    case wC: True
    have e: "(u, w) \<in> comp_edges adj C" using u w wC by (simp add: comp_edges_def)
    show ?thesis
    proof (cases "w = start \<and> length (stack s) > 1")
      case True
      then have "b" "s' = s" using Cons.prems(4) wC by simp_all
      then show ?thesis using Cons.prems(1,2) e True by simp
    next
      case ns: False
      show ?thesis
      proof (cases "w \<in> seen s")
        case True
        then have "dfs_edges rc start C ws s = Some (b, s')" using Cons.prems(4) wC ns by auto
        from Cons.IH [OF Cons.prems(1,2) sub this] show ?thesis .
      next
        case False
        then obtain f s1 where r: "rc w s = Some (f, s1)"
          using Cons.prems(4) wC ns by (cases "rc w s") (auto split: if_splits)
        have "path_post adj start C s f s1"
          using rc Cons.prems(1,2) wC e r unfolding path_ok_def by (metis list.sel(1))
        then have p: "path_inv adj C (stack s1)"
          "f \<Longrightarrow> stack s1 \<noteq> [] \<and> (hd (stack s1), start) \<in> comp_edges adj C"
          "\<not> f \<Longrightarrow> stack s1 = stack s"
          by (simp_all add: path_post_def)
        show ?thesis
        proof (cases f)
          case True
          then have "b" "s' = s1" using Cons.prems(4) wC ns False r by auto
          then show ?thesis using p True by simp
        next
          case nf: False
          then have d: "dfs_edges rc start C ws s1 = Some (b, s')"
            using Cons.prems(4) wC ns False r by auto
          have "stack s1 = u # stk0" using p(3) nf Cons.prems(2) by simp
          from Cons.IH [OF p(1) this sub d] show ?thesis .
        qed
      qed
    qed
  qed
qed

lemma dfs_path:
  assumes sub: "C \<subseteq> {..<length adj}" and st: "start \<in> C"
  shows "path_ok adj start C (dfs d adj start C)"
proof (induction d)
  case 0
  show ?case by (simp add: path_ok_def)
next
  case (Suc d)
  show ?case unfolding path_ok_def
  proof (intro allI impI)
    fix u s b s'
    assume a: "path_inv adj C (stack s) \<and> u \<in> C \<and>
        (stack s \<noteq> [] \<longrightarrow> (hd (stack s), u) \<in> comp_edges adj C) \<and>
        dfs (Suc d) adj start C u s = Some (b, s')"
    then have pi: "path_inv adj C (stack s)" and uC: "u \<in> C"
      and hd: "stack s \<noteq> [] \<longrightarrow> (hd (stack s), u) \<in> comp_edges adj C"
      and r: "dfs (Suc d) adj start C u s = Some (b, s')" by simp_all
    have ul: "u < length adj" using sub uC by auto
    show "path_post adj start C s b s'"
    proof (cases "u \<in> seen s")
      case True
      then have "\<not> b" "s' = s" using r by simp_all
      then show ?thesis using pi by (simp add: path_post_def)
    next
      case False
      let ?s1 = "s\<lparr>seen := insert u (seen s), stack := u # stack s\<rparr>"
      obtain f s2 where l: "dfs_edges (dfs d adj start C) start C (adj ! u) ?s1 = Some (f, s2)"
        using r False ul by (cases "dfs_edges (dfs d adj start C) start C (adj ! u) ?s1") auto
      have p1: "path_inv adj C (stack ?s1)" using pi hd by (auto simp: path_inv_Cons)
      have s1: "stack ?s1 = u # stack s" by simp
      from dfs_edges_path [OF Suc uC ul st p1 s1 subset_refl l]
      have p: "path_inv adj C (stack s2)"
        "f \<Longrightarrow> stack s2 \<noteq> [] \<and> (hd (stack s2), start) \<in> comp_edges adj C"
        "\<not> f \<Longrightarrow> stack s2 = u # stack s" by simp_all
      show ?thesis
      proof (cases f)
        case True
        then have "b" "s' = s2" using r False ul l by simp_all
        then show ?thesis using p True by (simp add: path_post_def)
      next
        case nf: False
        then have "\<not> b" "s' = s2\<lparr>stack := tl (stack s2)\<rparr>" using r False ul l by simp_all
        then show ?thesis using p(3) [OF nf] pi by (simp add: path_post_def)
      qed
    qed
  qed
qed

lemma findCycleFrom_path:
  assumes sub: "C \<subseteq> {..<length adj}" and st: "start \<in> C"
    and f: "findCycleFrom adj start C = Some (Some cyc)"
  shows "Suc j < length cyc \<Longrightarrow> cyc ! Suc j \<in> set (adj ! (cyc ! j))"
proof -
  let ?s0 = "\<lparr>seen = {}, stack = []\<rparr>"
  from f obtain s where r: "dfs (length adj) adj start C start ?s0 = Some (True, s)"
    and c: "cyc = rev (stack s) @ [start]"
    by (auto simp: findCycleFrom_def split: option.splits if_splits)
  have "path_post adj start C ?s0 True s"
    using dfs_path [OF sub st, of "length adj"] st r unfolding path_ok_def
    by (simp add: path_inv_def)
  then have p: "path_inv adj C (stack s)" "stack s \<noteq> []"
    "(hd (stack s), start) \<in> comp_edges adj C" by (simp_all add: path_post_def)
  have "successively (\<lambda>a b. (a, b) \<in> comp_edges adj C) cyc"
    unfolding c using p by (simp add: successively_append_iff path_inv_def last_rev)
  then show "Suc j < length cyc \<Longrightarrow> cyc ! Suc j \<in> set (adj ! (cyc ! j))"
    by (auto simp: successively_conv_nth comp_edges_def)
qed

section \<open>The SCC engine: every component is a strongly connected component\<close>

lemma loop_inv2I:
  assumes "scc_inv adj s"
    and "\<And>y. y \<in> set (st s0) \<Longrightarrow> (y, v) \<in> (edges adj)\<^sup>*"
    and "\<And>u. u \<in> visited s \<Longrightarrow> u \<notin> visited s0 \<Longrightarrow> (v, u) \<in> (edges adj)\<^sup>*"
    and "\<And>u w. u \<in> visited s \<Longrightarrow> u \<notin> visited s0 \<Longrightarrow> u \<noteq> v \<Longrightarrow> (u, w) \<in> edges adj \<Longrightarrow>
           w \<in> visited s"
    and "\<And>w. w \<in> P \<Longrightarrow> w < length adj \<Longrightarrow> w \<in> visited s"
    and "\<And>w. w \<in> P \<Longrightarrow> w < length adj \<Longrightarrow> w \<in> set (st s0) \<Longrightarrow> low s ! v \<le> idx s ! w"
    and "\<And>zs u. st s = zs @ v # st s0 \<Longrightarrow> u \<in> set zs \<Longrightarrow> (u, v) \<in> (edges adj)\<^sup>*"
    and "\<And>zs u y. st s = zs @ v # st s0 \<Longrightarrow> u \<in> set zs \<Longrightarrow> y \<in> set (st s0) \<Longrightarrow>
           (u, y) \<in> edges adj \<Longrightarrow> low s ! v \<le> idx s ! y"
    and "\<exists>x\<in>set (v # st s0). low s ! v = idx s ! x \<and> (v, x) \<in> (edges adj)\<^sup>*"
  shows "loop_inv2 adj v s0 P s"
  unfolding loop_inv2_def using assms by blast

lemma loop_inv2D:
  assumes "loop_inv2 adj v s0 P s"
  shows "scc_inv adj s"
    and "\<And>y. y \<in> set (st s0) \<Longrightarrow> (y, v) \<in> (edges adj)\<^sup>*"
    and "\<And>u. u \<in> visited s \<Longrightarrow> u \<notin> visited s0 \<Longrightarrow> (v, u) \<in> (edges adj)\<^sup>*"
    and "\<And>u w. u \<in> visited s \<Longrightarrow> u \<notin> visited s0 \<Longrightarrow> u \<noteq> v \<Longrightarrow> (u, w) \<in> edges adj \<Longrightarrow>
           w \<in> visited s"
    and "\<And>w. w \<in> P \<Longrightarrow> w < length adj \<Longrightarrow> w \<in> visited s"
    and "\<And>w. w \<in> P \<Longrightarrow> w < length adj \<Longrightarrow> w \<in> set (st s0) \<Longrightarrow> low s ! v \<le> idx s ! w"
    and "\<And>zs u. st s = zs @ v # st s0 \<Longrightarrow> u \<in> set zs \<Longrightarrow> (u, v) \<in> (edges adj)\<^sup>*"
    and "\<And>zs u y. st s = zs @ v # st s0 \<Longrightarrow> u \<in> set zs \<Longrightarrow> y \<in> set (st s0) \<Longrightarrow>
           (u, y) \<in> edges adj \<Longrightarrow> low s ! v \<le> idx s ! y"
    and "\<exists>x\<in>set (v # st s0). low s ! v = idx s ! x \<and> (v, x) \<in> (edges adj)\<^sup>*"
  using assms unfolding loop_inv2_def by blast+

lemma call_post2D:
  assumes "call_post2 adj v s s'"
  shows "scc_inv adj s'"
    and "\<And>u. u \<in> visited s' \<Longrightarrow> u \<notin> visited s \<Longrightarrow> (v, u) \<in> (edges adj)\<^sup>*"
    and "\<And>u w. u \<in> visited s' \<Longrightarrow> u \<notin> visited s \<Longrightarrow> (u, w) \<in> edges adj \<Longrightarrow> w \<in> visited s'"
    and "\<And>ys u. st s' = ys @ v # st s \<Longrightarrow> u \<in> set ys \<Longrightarrow> (u, v) \<in> (edges adj)\<^sup>*"
    and "\<And>ys. st s' = ys @ v # st s \<Longrightarrow>
           \<exists>x\<in>set (st s). low s' ! v = idx s ! x \<and> (v, x) \<in> (edges adj)\<^sup>*"
    and "\<And>ys u y. st s' = ys @ v # st s \<Longrightarrow> u \<in> set (ys @ [v]) \<Longrightarrow> y \<in> set (st s) \<Longrightarrow>
           (u, y) \<in> edges adj \<Longrightarrow> low s' ! v \<le> idx s ! y"
  using assms unfolding call_post2_def by blast+

lemma loop_invD:
  assumes "loop_inv N v s0 s"
  shows "wf_state N s0" "wf_state N s" "v < N" "v \<notin> visited s0" "visited s0 \<subseteq> visited s"
    "v \<in> visited s"
    and "\<And>u. u \<in> visited s0 \<Longrightarrow> idx s ! u = idx s0 ! u"
    and "\<And>u. u \<in> visited s0 \<Longrightarrow> low s ! u = low s0 ! u"
    and "idx s ! v = index s0" "index s0 < index s" "low s ! v \<le> index s0"
  using assms unfolding loop_inv_def by blast+

lemma call_postD:
  assumes "call_post N v s s'"
  shows "wf_state N s'" "visited s \<subseteq> visited s'" "v \<in> visited s'"
    and "\<And>u. u \<in> visited s \<Longrightarrow> idx s' ! u = idx s ! u"
    and "\<And>u. u \<in> visited s \<Longrightarrow> low s' ! u = low s ! u"
    and "index s < index s'"
    and "\<And>u. u \<in> visited s' \<Longrightarrow> u \<notin> visited s \<Longrightarrow> index s \<le> idx s' ! u"
    and "(st s' = st s \<and> low s' ! v = idx s' ! v) \<or>
         (\<exists>ys. st s' = ys @ v # st s \<and> (\<exists>x\<in>set (st s). low s' ! v = idx s ! x))"
  using assms unfolding call_post_def by blast+

lemma edgesI: "u < length adj \<Longrightarrow> w \<in> set (adj ! u) \<Longrightarrow> w < length adj \<Longrightarrow> (u, w) \<in> edges adj"
  by (simp add: edges_def)

lemma edgesD: "(u, w) \<in> edges adj \<Longrightarrow> u < length adj \<and> w \<in> set (adj ! u) \<and> w < length adj"
  by (simp add: edges_def)

lemma loop2_init:
  assumes wf: "wf_state (length adj) s" and v: "v < length adj" "v \<notin> visited s"
    and sc: "scc_inv adj s" and below: "\<And>y. y \<in> set (st s) \<Longrightarrow> (y, v) \<in> (edges adj)\<^sup>*"
  shows "loop_inv2 adj v s {} (push v s)"
proof (rule loop_inv2I)
  note len = wf_lengths [OF wf]
  have vis: "visited (push v s) = insert v (visited s)" by (rule visited_push [OF wf v(1)])
  show "scc_inv adj (push v s)" using sc by (simp add: scc_inv_def push_def)
  show "(y, v) \<in> (edges adj)\<^sup>*" if "y \<in> set (st s)" for y using below that .
  show "(v, u) \<in> (edges adj)\<^sup>*" if "u \<in> visited (push v s)" "u \<notin> visited s" for u
    using that vis by auto
  show "w \<in> visited (push v s)"
    if "u \<in> visited (push v s)" "u \<notin> visited s" "u \<noteq> v" "(u, w) \<in> edges adj" for u w
    using that vis by auto
  show "w \<in> visited (push v s)" if "w \<in> {}" for w using that by simp
  show "low (push v s) ! v \<le> idx (push v s) ! w" if "w \<in> {}" for w using that by simp
  show "(u, v) \<in> (edges adj)\<^sup>*" if "st (push v s) = zs @ v # st s" "u \<in> set zs" for zs u
    using that by (simp add: push_def)
  show "low (push v s) ! v \<le> idx (push v s) ! y"
    if "st (push v s) = zs @ v # st s" "u \<in> set zs" for zs u y
    using that by (simp add: push_def)
  show "\<exists>x\<in>set (v # st s). low (push v s) ! v = idx (push v s) ! x \<and> (v, x) \<in> (edges adj)\<^sup>*"
    using len v by (intro bexI [of _ v]) (simp_all add: push_def)
qed

lemma loop2_call:
  assumes li: "loop_inv (length adj) v s0 s" and l2: "loop_inv2 adj v s0 P s"
    and w: "w \<in> set (adj ! v)" "w < length adj" "w \<notin> visited s"
    and cp: "call_post (length adj) w s s'" and cp2: "call_post2 adj w s s'"
  shows "loop_inv2 adj v s0 (insert w P)
           (s'\<lparr>low := (low s')[v := (if low s' ! v < low s' ! w then low s' ! v else low s' ! w)]\<rparr>)"
    (is "loop_inv2 adj v s0 _ ?s2")
proof -
  let ?E = "edges adj"
  let ?l = "if low s' ! v < low s' ! w then low s' ! v else low s' ! w"
  note I = loop_invD [OF li] and J = loop_inv2D [OF l2]
  note A = call_postD [OF cp] and B = call_post2D [OF cp2]
  have len: "length (low s') = length adj" using wf_lengths [OF A(1)] by simp
  have lowv: "low ?s2 ! v = ?l" using len I(3) by simp
  have f2: "idx ?s2 = idx s'" "st ?s2 = st s'" "sccs ?s2 = sccs s'" "visited ?s2 = visited s'"
    by simp_all
  have vw: "(v, w) \<in> ?E" using w I(3) by (intro edgesI)
  have st0: "set (st s0) \<subseteq> visited s0" using wf_stack_visited [OF I(1)] by blast
  have lv: "low s' ! v = low s ! v" using A(5) I(6) by simp
  have l_le: "?l \<le> low s ! v" "?l \<le> low s' ! w" using lv by auto
  obtain zs where zs: "st s = zs @ v # st s0" using li by (auto simp: loop_inv_def)
  have below_w: "(y, w) \<in> ?E\<^sup>*" if "y \<in> set (st s)" for y
  proof -
    from that zs consider "y \<in> set zs" | "y = v" | "y \<in> set (st s0)" by auto
    then have "(y, v) \<in> ?E\<^sup>*" using J(2) J(7) [OF zs] by cases auto
    then show ?thesis using vw by auto
  qed
  have to_v: "(x, v) \<in> ?E\<^sup>*" if "x \<in> set (st s)" for x
  proof -
    from that zs consider "x \<in> set zs" | "x = v" | "x \<in> set (st s0)" by auto
    then show ?thesis using J(2) J(7) [OF zs] by cases auto
  qed
  have idx0: "idx s' ! y = idx s ! y" if "y \<in> set (st s0)" for y
    using A(4) [of y] st0 I(5) that by blast
  show ?thesis
  proof (rule loop_inv2I)
    show "scc_inv adj ?s2" using B(1) by (simp add: scc_inv_def)
    show "(y, v) \<in> ?E\<^sup>*" if "y \<in> set (st s0)" for y using J(2) that .
    show "(v, u) \<in> ?E\<^sup>*" if "u \<in> visited ?s2" "u \<notin> visited s0" for u
    proof (cases "u \<in> visited s")
      case True
      then show ?thesis using J(3) that by blast
    next
      case False
      then have "(w, u) \<in> ?E\<^sup>*" using B(2) that by simp
      then show ?thesis using vw by auto
    qed
    show "x \<in> visited ?s2"
      if "u \<in> visited ?s2" "u \<notin> visited s0" "u \<noteq> v" "(u, x) \<in> ?E" for u x
    proof (cases "u \<in> visited s")
      case True
      then have "x \<in> visited s" using J(4) that by blast
      then show ?thesis using A(2) by auto
    next
      case False
      then show ?thesis using B(3) that by simp
    qed
    show "x \<in> visited ?s2" if "x \<in> insert w P" "x < length adj" for x
      using that J(5) A(2,3) by auto
    show "low ?s2 ! v \<le> idx ?s2 ! x" if "x \<in> insert w P" "x < length adj" "x \<in> set (st s0)" for x
    proof -
      have "x \<noteq> w" using that(3) st0 I(5) w(3) by blast
      then have "low s ! v \<le> idx s ! x" using J(6) that by simp
      then show ?thesis unfolding lowv using l_le(1) idx0 [OF that(3)] by simp
    qed
    show "(u, v) \<in> ?E\<^sup>*" if s2: "st ?s2 = zs' @ v # st s0" and u: "u \<in> set zs'" for zs' u
    proof -
      from A(8) show ?thesis
      proof
        assume "st s' = st s \<and> low s' ! w = idx s' ! w"
        then have "zs' = zs" using s2 zs by simp
        then show ?thesis using J(7) [OF zs] u by simp
      next
        assume "\<exists>ys. st s' = ys @ w # st s \<and> (\<exists>x\<in>set (st s). low s' ! w = idx s ! x)"
        then obtain ys where ys: "st s' = ys @ w # st s" by blast
        then have "zs' = ys @ w # zs" using s2 zs by simp
        with u consider "u \<in> set ys" | "u = w" | "u \<in> set zs" by auto
        then show ?thesis
        proof cases
          case 1
          from B(5) [OF ys] obtain x where "x \<in> set (st s)" "(w, x) \<in> ?E\<^sup>*" by blast
          then have "(w, v) \<in> ?E\<^sup>*" using to_v by (meson rtrancl_trans)
          moreover have "(u, w) \<in> ?E\<^sup>*" using B(4) [OF ys 1] .
          ultimately show ?thesis by (meson rtrancl_trans)
        next
          case 2
          from B(5) [OF ys] obtain x where "x \<in> set (st s)" "(w, x) \<in> ?E\<^sup>*" by blast
          then show ?thesis using to_v 2 by (meson rtrancl_trans)
        next
          case 3
          then show ?thesis using J(7) [OF zs] by simp
        qed
      qed
    qed
    show "low ?s2 ! v \<le> idx ?s2 ! y"
      if s2: "st ?s2 = zs' @ v # st s0" and u: "u \<in> set zs'" and y: "y \<in> set (st s0)"
        and e: "(u, y) \<in> ?E" for zs' u y
    proof -
      have old: "low ?s2 ! v \<le> idx ?s2 ! y" if "u \<in> set zs"
        using J(8) [OF zs that y e] l_le(1) idx0 [OF y] unfolding lowv by simp
      from A(8) show ?thesis
      proof
        assume "st s' = st s \<and> low s' ! w = idx s' ! w"
        then have "zs' = zs" using s2 zs by simp
        then show ?thesis using old u by simp
      next
        assume "\<exists>ys. st s' = ys @ w # st s \<and> (\<exists>x\<in>set (st s). low s' ! w = idx s ! x)"
        then obtain ys where ys: "st s' = ys @ w # st s" by blast
        then have "zs' = ys @ w # zs" using s2 zs by simp
        with u consider "u \<in> set (ys @ [w])" | "u \<in> set zs" by auto
        then show ?thesis
        proof cases
          case 1
          have "y \<in> set (st s)" using y zs by simp
          from B(6) [OF ys 1 this e] have "low s' ! w \<le> idx s ! y" .
          then show ?thesis unfolding lowv using l_le(2) idx0 [OF y] by simp
        next
          case 2
          then show ?thesis by (rule old)
        qed
      qed
    qed
    show "\<exists>x\<in>set (v # st s0). low ?s2 ! v = idx ?s2 ! x \<and> (v, x) \<in> ?E\<^sup>*"
    proof (cases "low s' ! v < low s' ! w \<or> low s' ! w = low s' ! v")
      case True
      then have "?l = low s ! v" using lv by auto
      moreover from J(9) obtain x where x: "x \<in> set (v # st s0)" "low s ! v = idx s ! x"
        "(v, x) \<in> ?E\<^sup>*" by blast
      moreover have "idx s' ! x = idx s ! x" using x(1) A(4) [of x] I(6) st0 I(5) by auto
      ultimately show ?thesis unfolding lowv by (intro bexI [of _ x]) simp_all
    next
      case False
      then have lt: "low s' ! w < low s ! v" and l: "?l = low s' ! w" using lv by auto
      have "\<not> (st s' = st s \<and> low s' ! w = idx s' ! w)"
      proof
        assume "st s' = st s \<and> low s' ! w = idx s' ! w"
        moreover have "index s \<le> idx s' ! w" using A(7) [OF A(3) w(3)] .
        ultimately show False using lt I(10,11) by simp
      qed
      with A(8) obtain ys where ys: "st s' = ys @ w # st s" by blast
      from B(5) [OF ys] obtain x where x: "x \<in> set (st s)" "low s' ! w = idx s ! x"
        "(w, x) \<in> ?E\<^sup>*" by blast
      from x(1) zs consider "x \<in> set zs" | "x = v" | "x \<in> set (st s0)" by auto
      then have xs0: "x \<in> set (st s0)"
      proof cases
        case 1
        then have "index s0 < idx s ! x" using loop_inv_above [OF li zs] by blast
        then show ?thesis using x(2) lt I(11) by simp
      next
        case 2
        then show ?thesis using x(2) lt I(9,11) by simp
      next
        case 3
        then show ?thesis .
      qed
      have "(v, x) \<in> ?E\<^sup>*" using vw x(3) by (meson converse_rtrancl_into_rtrancl)
      moreover have "low ?s2 ! v = idx ?s2 ! x" using lowv l x(2) idx0 [OF xs0] by simp
      ultimately show ?thesis using xs0 by (intro bexI [of _ x]) simp_all
    qed
  qed
qed

lemma loop2_back:
  assumes li: "loop_inv (length adj) v s0 s" and l2: "loop_inv2 adj v s0 P s"
    and w: "w \<in> set (adj ! v)" "w < length adj" "onSt s ! w"
  shows "loop_inv2 adj v s0 (insert w P)
           (s\<lparr>low := (low s)[v := (if low s ! v < idx s ! w then low s ! v else idx s ! w)]\<rparr>)"
    (is "loop_inv2 adj v s0 _ ?s2")
proof -
  let ?E = "edges adj"
  let ?l = "if low s ! v < idx s ! w then low s ! v else idx s ! w"
  note I = loop_invD [OF li] and J = loop_inv2D [OF l2]
  have len: "length (low s) = length adj" using wf_lengths [OF I(2)] by simp
  have lowv: "low ?s2 ! v = ?l" using len I(3) by simp
  have vw: "(v, w) \<in> ?E" using w I(3) by (intro edgesI)
  have l_le: "?l \<le> low s ! v" "?l \<le> idx s ! w" by auto
  have wst: "w \<in> set (st s)" using wf_onSt [OF I(2) w(2)] w(3) by simp
  obtain zs where zs: "st s = zs @ v # st s0" using li by (auto simp: loop_inv_def)
  show ?thesis
  proof (rule loop_inv2I)
    show "scc_inv adj ?s2" using J(1) by (simp add: scc_inv_def)
    show "(y, v) \<in> ?E\<^sup>*" if "y \<in> set (st s0)" for y using J(2) that .
    show "(v, u) \<in> ?E\<^sup>*" if "u \<in> visited ?s2" "u \<notin> visited s0" for u
      using J(3) that by simp
    show "x \<in> visited ?s2"
      if "u \<in> visited ?s2" "u \<notin> visited s0" "u \<noteq> v" "(u, x) \<in> ?E" for u x
      using J(4) [of u x] that by simp
    show "x \<in> visited ?s2" if "x \<in> insert w P" "x < length adj" for x
      using that J(5) wst wf_stack_visited [OF I(2)] by auto
    show "low ?s2 ! v \<le> idx ?s2 ! x" if "x \<in> insert w P" "x < length adj" "x \<in> set (st s0)" for x
    proof (cases "x = w")
      case True
      then show ?thesis unfolding lowv using l_le(2) by simp
    next
      case False
      then have "low s ! v \<le> idx s ! x" using J(6) that by simp
      then show ?thesis unfolding lowv using l_le(1) by simp
    qed
    show "(u, v) \<in> ?E\<^sup>*" if "st ?s2 = zs' @ v # st s0" "u \<in> set zs'" for zs' u
      using J(7) [of zs' u] that by simp
    show "low ?s2 ! v \<le> idx ?s2 ! y"
      if "st ?s2 = zs' @ v # st s0" "u \<in> set zs'" "y \<in> set (st s0)" "(u, y) \<in> ?E" for zs' u y
    proof -
      have "low s ! v \<le> idx s ! y" using J(8) [of zs' u y] that by simp
      then show ?thesis unfolding lowv using l_le(1) by simp
    qed
    show "\<exists>x\<in>set (v # st s0). low ?s2 ! v = idx ?s2 ! x \<and> (v, x) \<in> ?E\<^sup>*"
    proof (cases "low s ! v < idx s ! w \<or> idx s ! w = low s ! v")
      case True
      then have "?l = low s ! v" by auto
      then show ?thesis using J(9) unfolding lowv by simp
    next
      case False
      then have lt: "idx s ! w < low s ! v" and l: "?l = idx s ! w" by auto
      from wst zs consider "w \<in> set zs" | "w = v" | "w \<in> set (st s0)" by auto
      then have ws0: "w \<in> set (st s0)"
      proof cases
        case 1
        then have "index s0 < idx s ! w" using loop_inv_above [OF li zs] by blast
        then show ?thesis using lt I(11) by simp
      next
        case 2
        then show ?thesis using lt I(9,11) by simp
      next
        case 3
        then show ?thesis .
      qed
      have "(v, w) \<in> ?E\<^sup>*" using vw by auto
      moreover have "low ?s2 ! v = idx ?s2 ! w" using lowv l by simp
      ultimately show ?thesis using ws0 by (intro bexI [of _ w]) simp_all
    qed
  qed
qed

lemma loop2_skip:
  assumes li: "loop_inv (length adj) v s0 s" and l2: "loop_inv2 adj v s0 P s"
    and w: "\<not> (w < length adj \<and> idx s ! w = - 1)" "\<not> (w < length adj \<and> onSt s ! w)"
  shows "loop_inv2 adj v s0 (insert w P) s"
proof -
  note I = loop_invD [OF li] and J = loop_inv2D [OF l2]
  note len = wf_lengths [OF I(2)]
  have vis: "w \<in> visited s" if "w < length adj" using that w(1) len by (simp add: visited_def)
  have nst: "w \<notin> set (st s)" if "w < length adj" using that w(2) wf_onSt [OF I(2) that] by simp
  obtain zs where zs: "st s = zs @ v # st s0" using li by (auto simp: loop_inv_def)
  show ?thesis
  proof (rule loop_inv2I)
    show "scc_inv adj s" by (rule J(1))
    show "(y, v) \<in> (edges adj)\<^sup>*" if "y \<in> set (st s0)" for y using J(2) that .
    show "(v, u) \<in> (edges adj)\<^sup>*" if "u \<in> visited s" "u \<notin> visited s0" for u
      using J(3) that .
    show "x \<in> visited s" if "u \<in> visited s" "u \<notin> visited s0" "u \<noteq> v" "(u, x) \<in> edges adj" for u x
      using J(4) that .
    show "x \<in> visited s" if "x \<in> insert w P" "x < length adj" for x
      using that J(5) vis by auto
    show "low s ! v \<le> idx s ! x" if "x \<in> insert w P" "x < length adj" "x \<in> set (st s0)" for x
    proof -
      have "x \<noteq> w" using nst that zs by auto
      then show ?thesis using J(6) that by simp
    qed
    show "(u, v) \<in> (edges adj)\<^sup>*" if "st s = zs' @ v # st s0" "u \<in> set zs'" for zs' u
      using J(7) that .
    show "low s ! v \<le> idx s ! y"
      if "st s = zs' @ v # st s0" "u \<in> set zs'" "y \<in> set (st s0)" "(u, y) \<in> edges adj" for zs' u y
      using J(8) that .
    show "\<exists>x\<in>set (v # st s0). low s ! v = idx s ! x \<and> (v, x) \<in> (edges adj)\<^sup>*" by (rule J(9))
  qed
qed

lemma rtrancl_crossing:
  assumes "(a, b) \<in> r\<^sup>*" "a \<in> C" "b \<notin> C"
  shows "\<exists>x y. x \<in> C \<and> y \<notin> C \<and> (a, x) \<in> r\<^sup>* \<and> (x, y) \<in> r \<and> (y, b) \<in> r\<^sup>*"
  using assms
proof (induction rule: rtrancl_induct)
  case base
  then show ?case by simp
next
  case (step y z)
  show ?case
  proof (cases "y \<in> C")
    case True
    then show ?thesis using step by blast
  next
    case False
    from step.IH [OF step.prems(1) False] obtain x y' where
      "x \<in> C" "y' \<notin> C" "(a, x) \<in> r\<^sup>*" "(x, y') \<in> r" "(y', y) \<in> r\<^sup>*" by blast
    moreover have "(y', z) \<in> r\<^sup>*" using \<open>(y', y) \<in> r\<^sup>*\<close> step.hyps(2) by auto
    ultimately show ?thesis by blast
  qed
qed

lemma pop_is_scc:
  assumes li: "loop_inv (length adj) v s0 s" and l2: "loop_inv2 adj v s0 (set (adj ! v)) s"
    and eq: "low s ! v = idx s ! v" and zs: "st s = zs @ v # st s0"
  shows "is_scc adj (set (zs @ [v]))"
proof -
  let ?E = "edges adj"
  let ?C = "set (zs @ [v])"
  note I = loop_invD [OF li] and J = loop_inv2D [OF l2]
  have vis: "visited s = set (st s) \<union> set (concat (sccs s))" by (rule wf_visited [OF I(2)])
  have dist: "distinct (st s @ concat (sccs s))" by (rule wf_distinct [OF I(2)])
  have Cvis: "u \<in> visited s" if "u \<in> ?C" for u using that vis zs by auto
  have Cnew: "u \<notin> visited s0" if "u \<in> ?C" for u
    using that loop_inv_above [OF li zs, of u] I(4) by auto
  have to_v: "(u, v) \<in> ?E\<^sup>*" if "u \<in> ?C" for u using that J(7) [OF zs] by auto
  have from_v: "(v, u) \<in> ?E\<^sup>*" if "u \<in> ?C" for u using J(3) [OF Cvis Cnew] that by blast
  have succ_vis: "y \<in> visited s" if "x \<in> ?C" "(x, y) \<in> ?E" for x y
  proof (cases "x = v")
    case True
    then show ?thesis using J(5) [of y] edgesD [of x y adj] that(2) by simp
  next
    case False
    then show ?thesis using J(4) [OF Cvis Cnew False that(2)] that(1) by simp
  qed
  have low_le: "low s ! v \<le> idx s ! y" if "x \<in> ?C" "(x, y) \<in> ?E" "y \<in> set (st s0)" for x y
  proof (cases "x = v")
    case True
    then show ?thesis using J(6) [of y] edgesD [of x y adj] that by simp
  next
    case False
    then have "x \<in> set zs" using that(1) by simp
    then show ?thesis using J(8) [OF zs _ that(3)] that(2) by blast
  qed
  have maxi: "w \<in> ?C" if vw: "(v, w) \<in> ?E\<^sup>*" and wv: "(w, v) \<in> ?E\<^sup>*" for w
  proof (rule ccontr)
    assume "w \<notin> ?C"
    from rtrancl_crossing [OF vw _ this] obtain x y where
      xy: "x \<in> ?C" "y \<notin> ?C" "(v, x) \<in> ?E\<^sup>*" "(x, y) \<in> ?E" "(y, w) \<in> ?E\<^sup>*" by auto
    have yv: "(y, v) \<in> ?E\<^sup>*" using xy(5) wv by (meson rtrancl_trans)
    have vy: "(v, y) \<in> ?E\<^sup>*" using xy(3,4) by auto
    have "y \<in> visited s" by (rule succ_vis [OF xy(1,4)])
    with vis zs xy(2) consider "y \<in> set (st s0)" | "y \<in> set (concat (sccs s))" by auto
    then show False
    proof cases
      case 1
      have "low s ! v \<le> idx s ! y" by (rule low_le [OF xy(1,4) 1])
      moreover have "y \<in> visited s0" using 1 wf_stack_visited [OF I(1)] by simp
      then have "idx s ! y < index s0" using I(7) [of y] wf_idx_less [OF I(1), of y] by simp
      ultimately show False using eq I(9) by simp
    next
      case 2
      then obtain c where c: "c \<in> set (sccs s)" "y \<in> set c" by auto
      then have "is_scc adj (set c)" using J(1) by (simp add: scc_inv_def)
      then have "v \<in> set c" using c(2) vy yv unfolding is_scc_def by blast
      then have "v \<in> set (concat (sccs s))" using c(1) by auto
      then show False using dist zs by auto
    qed
  qed
  show ?thesis
    unfolding is_scc_def
  proof (intro conjI ballI allI)
    show "?C \<noteq> {}" by simp
    show "?C \<subseteq> {..<length adj}" using Cvis visited_less [OF I(2)] by blast
    show "w \<in> ?C \<longleftrightarrow> (u, w) \<in> ?E\<^sup>* \<and> (w, u) \<in> ?E\<^sup>*" if u: "u \<in> ?C" for u w
    proof
      assume "w \<in> ?C"
      then show "(u, w) \<in> ?E\<^sup>* \<and> (w, u) \<in> ?E\<^sup>*"
        using to_v [OF u] from_v [OF u] to_v [of w] from_v [of w] by (meson rtrancl_trans)
    next
      assume "(u, w) \<in> ?E\<^sup>* \<and> (w, u) \<in> ?E\<^sup>*"
      then have "(v, w) \<in> ?E\<^sup>*" "(w, v) \<in> ?E\<^sup>*"
        using to_v [OF u] from_v [OF u] by (meson rtrancl_trans)+
      then show "w \<in> ?C" by (rule maxi)
    qed
  qed
qed

lemma loop2_below:
  assumes li: "loop_inv (length adj) v s0 s" and l2: "loop_inv2 adj v s0 P s"
    and w: "w \<in> set (adj ! v)" "w < length adj" and y: "y \<in> set (st s)"
  shows "(y, w) \<in> (edges adj)\<^sup>*"
proof -
  note I = loop_invD [OF li] and J = loop_inv2D [OF l2]
  obtain zs where zs: "st s = zs @ v # st s0" using li by (auto simp: loop_inv_def)
  have vw: "(v, w) \<in> edges adj" using w I(3) by (intro edgesI)
  from y zs consider "y \<in> set zs" | "y = v" | "y \<in> set (st s0)" by auto
  then have "(y, v) \<in> (edges adj)\<^sup>*" using J(2) J(7) [OF zs] by cases auto
  then show ?thesis using vw by auto
qed

lemma loop2_new:
  assumes li: "loop_inv (length adj) v s0 s" and l2: "loop_inv2 adj v s0 (set (adj ! v)) s"
    and u: "u \<in> visited s" "u \<notin> visited s0"
  shows "(v, u) \<in> (edges adj)\<^sup>* \<and> (\<forall>w. (u, w) \<in> edges adj \<longrightarrow> w \<in> visited s)"
proof -
  note J = loop_inv2D [OF l2]
  have "w \<in> visited s" if "(u, w) \<in> edges adj" for w
  proof (cases "u = v")
    case True
    then show ?thesis using J(5) [of w] edgesD [OF that] by simp
  next
    case False
    show ?thesis using J(4) [OF u False that] .
  qed
  then show ?thesis using J(3) [OF u] by blast
qed

lemma loop2_exit_keep:
  assumes li: "loop_inv (length adj) v s0 s" and l2: "loop_inv2 adj v s0 (set (adj ! v)) s"
    and ne: "low s ! v \<noteq> idx s ! v"
  shows "call_post2 adj v s0 s"
proof -
  let ?E = "edges adj"
  note I = loop_invD [OF li] and J = loop_inv2D [OF l2]
  have st0: "set (st s0) \<subseteq> visited s0" using wf_stack_visited [OF I(1)] by blast
  have wit: "\<exists>x\<in>set (st s0). low s ! v = idx s0 ! x \<and> (v, x) \<in> ?E\<^sup>*"
  proof -
    from J(9) obtain x where x: "x \<in> set (v # st s0)" "low s ! v = idx s ! x" "(v, x) \<in> ?E\<^sup>*"
      by blast
    with ne have xs: "x \<in> set (st s0)" by auto
    then have "idx s ! x = idx s0 ! x" using I(7) st0 by blast
    then show ?thesis using x xs by auto
  qed
  have third: "low s ! v \<le> idx s0 ! y"
    if "st s = ys @ v # st s0" "u \<in> set (ys @ [v])" "y \<in> set (st s0)" "(u, y) \<in> ?E" for ys u y
  proof -
    have iy: "idx s ! y = idx s0 ! y" using I(7) st0 that(3) by blast
    show ?thesis
    proof (cases "u = v")
      case True
      then show ?thesis using J(6) [of y] edgesD [of u y adj] that iy by simp
    next
      case False
      then have "u \<in> set ys" using that(2) by simp
      from J(8) [OF that(1) this that(3,4)] iy show ?thesis by simp
    qed
  qed
  show ?thesis
    unfolding call_post2_def
  proof (intro conjI ballI allI impI)
    show "scc_inv adj s" by (rule J(1))
    show "(v, u) \<in> ?E\<^sup>*" if "u \<in> visited s - visited s0" for u
      using loop2_new [OF li l2, of u] that by simp
    show "w \<in> visited s" if "u \<in> visited s - visited s0" "(u, w) \<in> ?E" for u w
      using loop2_new [OF li l2, of u] that by simp
    show "(u, v) \<in> ?E\<^sup>*" if "st s = ys @ v # st s0" "u \<in> set ys" for ys u
      using J(7) that .
    show "\<exists>x\<in>set (st s0). low s ! v = idx s0 ! x \<and> (v, x) \<in> ?E\<^sup>*" by (rule wit)
    show "low s ! v \<le> idx s0 ! y"
      if "st s = ys @ v # st s0" "u \<in> set (ys @ [v])" "y \<in> set (st s0)" "(u, y) \<in> ?E" for ys u y
      using third that .
  qed
qed

lemma loop2_exit_pop:
  assumes li: "loop_inv (length adj) v s0 s" and l2: "loop_inv2 adj v s0 (set (adj ! v)) s"
    and eq: "low s ! v = idx s ! v" and zs: "st s = zs @ v # st s0"
    and s3: "st s3 = st s0" "idx s3 = idx s" "sccs s3 = sccs s"
  shows "call_post2 adj v s0 (s3\<lparr>sccs := sccs s3 @ [zs @ [v]]\<rparr>)" (is "call_post2 adj v s0 ?s4")
proof -
  let ?E = "edges adj"
  note J = loop_inv2D [OF l2]
  have vis4: "visited ?s4 = visited s" using s3 by (simp add: visited_def)
  have "is_scc adj (set (zs @ [v]))" by (rule pop_is_scc [OF li l2 eq zs])
  then have sc4: "scc_inv adj ?s4" using J(1) s3 by (auto simp: scc_inv_def)
  have nost: "st ?s4 \<noteq> ys @ v # st s0" for ys
  proof
    assume "st ?s4 = ys @ v # st s0"
    then have "length (st s0) = length (ys @ v # st s0)" using s3 by simp
    then show False by simp
  qed
  show ?thesis
    unfolding call_post2_def vis4
  proof (intro conjI ballI allI impI)
    show "scc_inv adj ?s4" by (rule sc4)
    show "(v, u) \<in> ?E\<^sup>*" if "u \<in> visited s - visited s0" for u
      using loop2_new [OF li l2, of u] that by simp
    show "w \<in> visited s" if "u \<in> visited s - visited s0" "(u, w) \<in> ?E" for u w
      using loop2_new [OF li l2, of u] that by simp
    show "(u, v) \<in> ?E\<^sup>*" if "st ?s4 = ys @ v # st s0" for ys u using nost that by blast
    show "\<exists>x\<in>set (st s0). low ?s4 ! v = idx s0 ! x \<and> (v, x) \<in> ?E\<^sup>*"
      if "st ?s4 = ys @ v # st s0" for ys using nost that by blast
    show "low ?s4 ! v \<le> idx s0 ! y" if "st ?s4 = ys @ v # st s0" for ys y using nost that by blast
  qed
qed

lemma strongconnect_edges_ok2:
  assumes okA: "sc_ok (length adj) d sc" and okB: "sc_ok2 adj sc"
  shows "loop_inv (length adj) v s0 s \<Longrightarrow> loop_inv2 adj v s0 P s \<Longrightarrow> set ws \<subseteq> set (adj ! v) \<Longrightarrow>
     strongconnect_edges sc v ws s = Some s' \<Longrightarrow> loop_inv2 adj v s0 (P \<union> set ws) s'"
proof (induction ws arbitrary: s P)
  case Nil
  then show ?case by simp
next
  case (Cons w ws)
  note li = Cons.prems(1) and l2 = Cons.prems(2)
  have wadj: "w \<in> set (adj ! v)" and sub: "set ws \<subseteq> set (adj ! v)" using Cons.prems(3) by auto
  have wf: "wf_state (length adj) s" using li by (simp add: loop_inv_def)
  note len = wf_lengths [OF wf]
  have sets: "P \<union> set (w # ws) = insert w P \<union> set ws" by simp
  show ?case
  proof (cases "w < length (idx s) \<and> idx s ! w = - 1")
    case True
    then have w: "w < length adj" "w \<notin> visited s" using len by (simp_all add: visited_def)
    from Cons.prems(4) True obtain s1 where s1: "sc w s = Some s1" by (cases "sc w s") auto
    let ?s2 = "s1\<lparr>low := (low s1)[v := (if low s1 ! v < low s1 ! w then low s1 ! v else low s1 ! w)]\<rparr>"
    have r: "strongconnect_edges sc v ws ?s2 = Some s'" using Cons.prems(4) True s1 by simp
    have cp: "call_post (length adj) w s s1" using okA wf w s1 unfolding sc_ok_def by blast
    have "scc_inv adj s" using loop_inv2D(1) [OF l2] .
    moreover have "\<forall>y\<in>set (st s). (y, w) \<in> (edges adj)\<^sup>*"
      using loop2_below [OF li l2 wadj w(1)] by blast
    ultimately have cp2: "call_post2 adj w s s1" using okB wf w s1 unfolding sc_ok2_def by blast
    have li2: "loop_inv (length adj) v s0 ?s2" by (rule loop_inv_call [OF li cp w(2)])
    have l22: "loop_inv2 adj v s0 (insert w P) ?s2" by (rule loop2_call [OF li l2 wadj w cp cp2])
    from Cons.IH [OF li2 l22 sub r] show ?thesis unfolding sets .
  next
    case False
    show ?thesis
    proof (cases "w < length (onSt s) \<and> onSt s ! w")
      case True
      let ?s2 = "s\<lparr>low := (low s)[v := (if low s ! v < idx s ! w then low s ! v else idx s ! w)]\<rparr>"
      have w: "w < length adj" "onSt s ! w" using True len by simp_all
      have r: "strongconnect_edges sc v ws ?s2 = Some s'" using Cons.prems(4) True False by auto
      have li2: "loop_inv (length adj) v s0 ?s2" by (rule loop_inv_back [OF li w])
      have l22: "loop_inv2 adj v s0 (insert w P) ?s2" by (rule loop2_back [OF li l2 wadj w])
      from Cons.IH [OF li2 l22 sub r] show ?thesis unfolding sets .
    next
      case F2: False
      have r: "strongconnect_edges sc v ws s = Some s'" using Cons.prems(4) False F2 by auto
      have l22: "loop_inv2 adj v s0 (insert w P) s"
        using loop2_skip [OF li l2] False F2 len by simp
      from Cons.IH [OF li l22 sub r] show ?thesis unfolding sets .
    qed
  qed
qed

lemma strongconnect_ok2: "sc_ok2 adj (strongconnect d adj)"
proof (induction d)
  case 0
  show ?case by (simp add: sc_ok2_def)
next
  case (Suc d)
  show ?case
    unfolding sc_ok2_def
  proof (intro allI impI)
    fix v s s'
    assume a: "wf_state (length adj) s \<and> v < length adj \<and> v \<notin> visited s \<and> scc_inv adj s \<and>
        (\<forall>y\<in>set (st s). (y, v) \<in> (edges adj)\<^sup>*) \<and> strongconnect (Suc d) adj v s = Some s'"
    then have r: "strongconnect (Suc d) adj v s = Some s'" by simp
    have li: "loop_inv (length adj) v s (push v s)" using a loop_inv_init by blast
    have l2: "loop_inv2 adj v s {} (push v s)" using a by (intro loop2_init) auto
    from r obtain s2 where
      s2: "strongconnect_edges (strongconnect d adj) v (adj ! v) (push v s) = Some s2"
      by (cases "strongconnect_edges (strongconnect d adj) v (adj ! v) (push v s)")
        (simp_all add: strongconnect_Suc)
    have li2: "loop_inv (length adj) v s s2"
      using strongconnect_edges_ok [OF strongconnect_ok li] s2 by blast
    have l22: "loop_inv2 adj v s (set (adj ! v)) s2"
      using strongconnect_edges_ok2 [OF strongconnect_ok Suc li l2 _ s2] by simp
    show "call_post2 adj v s s'"
    proof (cases "low s2 ! v = idx s2 ! v")
      case True
      from loop_exit_pop [OF li2 True] obtain zs s3 where
        p: "st s2 = zs @ v # st s" "strongconnect_pop v (st s2) [] s2 = Some (zs @ [v], s3)"
          "st s3 = st s" "idx s3 = idx s2" "sccs s3 = sccs s2"
        by blast
      have "s' = s3\<lparr>sccs := sccs s3 @ [zs @ [v]]\<rparr>"
        using r s2 True p(2) by (simp add: strongconnect_Suc)
      then show ?thesis using loop2_exit_pop [OF li2 l22 True p(1,3,4,5)] by simp
    next
      case False
      then have "s' = s2" using r s2 by (simp add: strongconnect_Suc)
      then show ?thesis using loop2_exit_keep [OF li2 l22 False] by simp
    qed
  qed
qed

lemma tarjan_roots_ok2:
  assumes okA: "sc_ok (length adj) d sc" and okB: "sc_ok2 adj sc"
  shows "wf_state (length adj) s \<Longrightarrow> st s = [] \<Longrightarrow> scc_inv adj s \<Longrightarrow> set vs \<subseteq> {..<length adj} \<Longrightarrow>
     tarjan_roots sc vs s = Some s' \<Longrightarrow> scc_inv adj s'"
proof (induction vs arbitrary: s)
  case Nil
  then show ?case by simp
next
  case (Cons v vs)
  have v: "v < length adj" using Cons.prems(4) by simp
  show ?case
  proof (cases "idx s ! v = - 1")
    case True
    then have nv: "v \<notin> visited s" by (simp add: visited_def)
    from Cons.prems(5) True obtain s1 where s1: "sc v s = Some s1" by (cases "sc v s") auto
    have r: "tarjan_roots sc vs s1 = Some s'" using Cons.prems(5) True s1 by simp
    have cp: "call_post (length adj) v s s1" using okA Cons.prems(1) v nv s1 unfolding sc_ok_def by blast
    have cp2: "call_post2 adj v s s1"
      using okB Cons.prems(1,2,3) v nv s1 unfolding sc_ok2_def by auto
    have "wf_state (length adj) s1" "st s1 = []" "scc_inv adj s1"
      using cp cp2 Cons.prems(2) by (auto simp: call_post_def call_post2_def)
    from Cons.IH [OF this _ r] Cons.prems(4) show ?thesis by simp
  next
    case False
    then have "tarjan_roots sc vs s = Some s'" using Cons.prems(5) by simp
    from Cons.IH [OF Cons.prems(1,2,3) _ this] Cons.prems(4) show ?thesis by simp
  qed
qed

lemma tarjan_sccs:
  assumes "tarjan d adj = Some ts"
  shows "\<forall>c\<in>set (sccs ts). is_scc adj (set c)"
proof -
  have i1: "st (tarjan_init (length adj)) = []" by (simp add: tarjan_init_def)
  have i2: "scc_inv adj (tarjan_init (length adj))" by (simp add: scc_inv_def tarjan_init_def)
  have i3: "set [0..<length adj] \<subseteq> {..<length adj}" by auto
  have r: "tarjan_roots (strongconnect d adj) [0..<length adj] (tarjan_init (length adj)) = Some ts"
    using assms by (simp add: tarjan_def)
  have "scc_inv adj ts"
    by (rule tarjan_roots_ok2 [OF strongconnect_ok strongconnect_ok2 wf_tarjan_init i1 i2 i3 r])
  then show ?thesis by (simp add: scc_inv_def)
qed

section \<open>The reporting loop\<close>

lemma is_scc_unique:
  assumes "is_scc adj C" "is_scc adj D" "i \<in> C" "i \<in> D"
  shows "C = D"
  using assms unfolding is_scc_def by blast

lemma is_scc_comp_reach:
  assumes scc: "is_scc adj C" and a: "a \<in> C" and b: "b \<in> C"
  shows "(a, b) \<in> (comp_edges adj C)\<^sup>*"
proof -
  let ?E = "edges adj"
  have mem: "w \<in> C \<longleftrightarrow> (a, w) \<in> ?E\<^sup>* \<and> (w, a) \<in> ?E\<^sup>*" for w
    using scc a unfolding is_scc_def by blast
  have "(a, x) \<in> ?E\<^sup>* \<Longrightarrow> (x, a) \<in> ?E\<^sup>* \<longrightarrow> (a, x) \<in> (comp_edges adj C)\<^sup>*" for x
  proof (induction rule: rtrancl_induct)
    case base
    then show ?case by simp
  next
    case (step y z)
    show ?case
    proof
      assume za: "(z, a) \<in> ?E\<^sup>*"
      then have ya: "(y, a) \<in> ?E\<^sup>*" using step.hyps(2) by (meson converse_rtrancl_into_rtrancl)
      then have ay: "(a, y) \<in> (comp_edges adj C)\<^sup>*" using step.IH by simp
      have "y \<in> C" using mem step.hyps(1) ya by blast
      moreover have "z \<in> C" using mem step.hyps(1,2) za by (meson rtrancl_into_rtrancl)
      ultimately have "(y, z) \<in> comp_edges adj C"
        using edgesD [OF step.hyps(2)] by (simp add: comp_edges_def)
      with ay show "(a, z) \<in> (comp_edges adj C)\<^sup>*" by auto
    qed
  qed
  then show ?thesis using mem b by blast
qed

lemma cycleFrom_scc:
  assumes scc: "is_scc adj C" and two: "2 \<le> card C" and i: "i \<in> C"
  shows "\<exists>cyc. findCycleFrom adj i C = Some (Some cyc) \<and> cycleFrom adj i C = Some (Some cyc) \<and>
           hd cyc = i \<and> last cyc = i \<and> distinct (butlast cyc) \<and> set cyc \<subseteq> C \<and> 3 \<le> length cyc"
proof -
  have sub: "C \<subseteq> {..<length adj}" using scc by (simp add: is_scc_def)
  have "\<exists>b\<in>C. b \<noteq> i"
  proof (rule ccontr)
    assume "\<not> (\<exists>b\<in>C. b \<noteq> i)"
    then have "C \<subseteq> {i}" by auto
    then have "card C \<le> card {i}" by (intro card_mono) auto
    then show False using two by simp
  qed
  moreover have "\<forall>a\<in>C. \<forall>b\<in>C. (a, b) \<in> (comp_edges adj C)\<^sup>*"
    using is_scc_comp_reach [OF scc] by blast
  ultimately obtain cyc where f: "findCycleFrom adj i C = Some (Some cyc)"
    using findCycleFrom_finds [OF sub i] by blast
  with findCycleFrom_result [OF sub i] have
    "hd cyc = i \<and> last cyc = i \<and> distinct (butlast cyc) \<and> set cyc \<subseteq> C \<and> 3 \<le> length cyc"
    by auto
  moreover have "cycleFrom adj i C = Some (Some cyc)" using f by (simp add: cycleFrom_def)
  ultimately show ?thesis using f by blast
qed

lemma cycleFrom_total:
  assumes sub: "C \<subseteq> {..<length adj}" and i: "i \<in> C"
  shows "cycleFrom adj i C \<noteq> None"
proof -
  from findCycleFrom_result [OF sub i] obtain r where "findCycleFrom adj i C = Some r" by blast
  then show ?thesis by (cases r) (simp_all add: cycleFrom_def)
qed

lemma collect_Some:
  "(\<And>x. x \<in> set xs \<Longrightarrow> f x = Some (g x)) \<Longrightarrow> collect f xs = Some (List.map_filter g xs)"
proof (induction xs)
  case Nil
  then show ?case by (simp add: List.map_filter_def)
next
  case (Cons x xs)
  have "f x = Some (g x)" using Cons.prems by simp
  moreover have "collect f xs = Some (List.map_filter g xs)" using Cons by simp
  ultimately show ?case by (cases "g x") (simp_all add: List.map_filter_def)
qed

lemma collectEach_Some:
  "(\<And>x. x \<in> set xs \<Longrightarrow> f x = Some (g x)) \<Longrightarrow> collectEach f xs = Some (concat (map g xs))"
proof (induction xs)
  case Nil
  then show ?case by simp
next
  case (Cons x xs)
  have "f x = Some (g x)" using Cons.prems by simp
  moreover have "collectEach f xs = Some (concat (map g xs))" using Cons by simp
  ultimately show ?case by simp
qed

lemma distinct_createSortedModuleList:
  "distinct (List.map_filter (\<lambda>m. m) modules) \<Longrightarrow> distinct (createSortedModuleList h modules)"
  by (simp add: createSortedModuleList_def)

lemma tarjan_facts:
  assumes "tarjan (length adj) adj = Some ts"
  shows "wf_state (length adj) ts" "st ts = []" "visited ts = {..<length adj}"
    "distinct (concat (sccs ts))" "set (concat (sccs ts)) = {..<length adj}"
    "\<And>c. c \<in> set (sccs ts) \<Longrightarrow> is_scc adj (set c)"
proof -
  from tarjan_total [of adj "length adj"] assms
  show wf: "wf_state (length adj) ts" and s: "st ts = []" and v: "visited ts = {..<length adj}"
    by auto
  show "distinct (concat (sccs ts))" using wf_distinct [OF wf] by simp
  show "set (concat (sccs ts)) = {..<length adj}" using wf_visited [OF wf] s v by simp
  show "is_scc adj (set c)" if "c \<in> set (sccs ts)" for c using tarjan_sccs [OF assms] that by blast
qed

lemma comp_of:
  assumes t: "tarjan (length adj) adj = Some ts" and i: "i < length adj"
  shows "\<exists>k<length (sccs ts). i \<in> set (sccs ts ! k) \<and> sccId ts ! i = int k"
proof -
  note F = tarjan_facts [OF t]
  from F(5) i obtain c where "c \<in> set (sccs ts)" "i \<in> set c" by auto
  then obtain k where k: "k < length (sccs ts)" "i \<in> set (sccs ts ! k)"
    by (metis in_set_conv_nth)
  then show ?thesis using wf_sccId [OF F(1) k] by blast
qed

lemma comp_facts:
  assumes t: "tarjan (length adj) adj = Some ts" and k: "k < length (sccs ts)"
  shows "is_scc adj (set (sccs ts ! k))" "distinct (sccs ts ! k)"
    "card (set (sccs ts ! k)) = length (sccs ts ! k)" "set (sccs ts ! k) \<subseteq> {..<length adj}"
proof -
  note F = tarjan_facts [OF t]
  have m: "sccs ts ! k \<in> set (sccs ts)" using k by simp
  show "is_scc adj (set (sccs ts ! k))" using F(6) m by blast
  show d: "distinct (sccs ts ! k)" using F(4) m by (simp add: distinct_concat_iff)
  show "card (set (sccs ts ! k)) = length (sccs ts ! k)" using d by (rule distinct_card)
  show "set (sccs ts ! k) \<subseteq> {..<length adj}" using F(5) m by auto
qed

lemma flag_iff_cyclic:
  assumes t: "tarjan (length adj) adj = Some ts" and k: "k < length (sccs ts)"
  shows "flagInvalidComponents res (sccs ts) ! k \<longleftrightarrow> \<not> cyclic adj res (set (sccs ts ! k))"
proof -
  note C = comp_facts [OF t k]
  have "flagInvalidComponents res (sccs ts) ! k \<longleftrightarrow>
      length (sccs ts ! k) \<le> 1 \<or> (\<exists>j\<in>set (sccs ts ! k). res j = None)"
    using k by (auto simp: flagInvalidComponents_def anyMissingResource_iff)
  also have "\<dots> \<longleftrightarrow> \<not> cyclic adj res (set (sccs ts ! k))"
    unfolding cyclic_def using C(1,3) by auto
  finally show ?thesis .
qed

lemma reportable_iff:
  assumes t: "tarjan (length adj) adj = Some ts" and k: "k < length (sccs ts)"
    and i: "i \<in> set (sccs ts ! k)"
  shows "reportable opts h modList adj i \<longleftrightarrow>
     eligible opts h (modList ! i) \<and>
     \<not> flagInvalidComponents (\<lambda>j. getResource h (modList ! j)) (sccs ts) ! k"
proof -
  let ?res = "\<lambda>j. getResource h (modList ! j)"
  note C = comp_facts [OF t k]
  have "(\<exists>C. cyclic adj ?res C \<and> i \<in> C) \<longleftrightarrow> cyclic adj ?res (set (sccs ts ! k))"
  proof
    assume "\<exists>C. cyclic adj ?res C \<and> i \<in> C"
    then obtain C where c: "cyclic adj ?res C" "i \<in> C" by blast
    then have "C = set (sccs ts ! k)" using is_scc_unique [OF _ C(1) c(2) i] by (simp add: cyclic_def)
    with c(1) show "cyclic adj ?res (set (sccs ts ! k))" by simp
  next
    assume "cyclic adj ?res (set (sccs ts ! k))"
    then show "\<exists>C. cyclic adj ?res C \<and> i \<in> C" using i by blast
  qed
  then show ?thesis unfolding reportable_def using flag_iff_cyclic [OF t k, of ?res] by simp
qed

lemma nodeReport_eq:
  assumes t: "tarjan (length adj) adj = Some ts" and k: "k < length (sccs ts)"
    and i: "i \<in> set (sccs ts ! k)"
    and valid: "\<not> flagInvalidComponents (\<lambda>j. getResource h (modList ! j)) (sccs ts) ! k"
  shows "nodeReport opts h modList adj (set (sccs ts ! k)) i = Some (reportAt opts h modList adj ts i)"
proof -
  let ?res = "\<lambda>j. getResource h (modList ! j)"
  let ?C = "set (sccs ts ! k)"
  note F = tarjan_facts [OF t] and C = comp_facts [OF t k]
  have cyc: "cyclic adj ?res ?C" using flag_iff_cyclic [OF t k, of ?res] valid by simp
  have rep: "reportable opts h modList adj i \<longleftrightarrow> eligible opts h (modList ! i)"
    using reportable_iff [OF t k i, where opts = opts and h = h and modList = modList] valid
    by simp
  have "sccId ts ! i = int k" using wf_sccId [OF F(1) k i] .
  then have kk: "nat (sccId ts ! i) = k" by simp
  from cyc have "2 \<le> card ?C" by (simp add: cyclic_def)
  from cycleFrom_scc [OF C(1) this i] obtain cyc where c: "cycleFrom adj i ?C = Some (Some cyc)"
    by blast
  show ?thesis
  proof (cases "getResource h (modList ! i)")
    case None
    then show ?thesis using rep by (simp add: nodeReport_def reportAt_def eligible_def)
  next
    case (Some r)
    then show ?thesis using rep c kk
      by (auto simp: nodeReport_def reportAt_def eligible_def)
  qed
qed

lemma reportOf_eq:
  assumes t: "tarjan (length adj) adj = Some ts" and d: "distinct modList"
    and len: "length adj = length modList" and i: "i < length modList"
  shows "reportOf opts h modList adj ts
           (flagInvalidComponents (\<lambda>j. getResource h (modList ! j)) (sccs ts)) i
         = Some (reportAt opts h modList adj ts i)"
proof -
  let ?res = "\<lambda>j. getResource h (modList ! j)"
  let ?inv = "flagInvalidComponents ?res (sccs ts)"
  from comp_of [OF t] i len obtain k where
    k: "k < length (sccs ts)" "i \<in> set (sccs ts ! k)" "sccId ts ! i = int k" by auto
  have id: "idOf modList (modList ! i) = Some i" by (rule idOf_distinct [OF d i])
  have li: "length ?inv = length (sccs ts)" by (simp add: flagInvalidComponents_def)
  show ?thesis
  proof (cases "?inv ! k")
    case True
    then have "\<not> reportable opts h modList adj i"
      using reportable_iff [OF t k(1,2), where opts = opts and h = h and modList = modList]
      by simp
    then show ?thesis using True id k li by (simp add: reportOf_def reportAt_def Let_def)
  next
    case False
    have "reportOf opts h modList adj ts ?inv i = nodeReport opts h modList adj (set (sccs ts ! k)) i"
      using False id k li by (simp add: reportOf_def nodeReport_def Let_def split: option.splits)
    then show ?thesis using nodeReport_eq [OF t k(1,2) False] by simp
  qed
qed

lemma reportOf_total:
  assumes t: "tarjan (length adj) adj = Some ts"
    and len: "length adj = length modList" and i: "i < length modList"
  shows "reportOf opts h modList adj ts invalid i \<noteq> None"
proof -
  have "modList ! i \<in> dom (idOf modList)" using i by (simp add: idOf_dom)
  then obtain j where j: "idOf modList (modList ! i) = Some j" by auto
  then have jl: "j < length adj" using idOf_Some [OF j] len by simp
  from comp_of [OF t jl] obtain k where
    k: "k < length (sccs ts)" "j \<in> set (sccs ts ! k)" "sccId ts ! j = int k" by auto
  have "cycleFrom adj j (set (sccs ts ! k)) \<noteq> None"
    using cycleFrom_total [OF comp_facts(4) [OF t k(1)] k(2)] .
  then show ?thesis using j k
    by (auto simp: reportOf_def Let_def split: option.splits)
qed

lemma tarjan_built:
  "\<exists>ts. tarjan (length (buildAdjacencyList h a xs)) (buildAdjacencyList h a xs) = Some ts"
  using tarjan_total [of "buildAdjacencyList h a xs" "length (buildAdjacencyList h a xs)"] by auto

lemma cycleReports_unfold:
  assumes "tarjan (length adj) adj = Some ts"
    and "modList = createSortedModuleList h modules"
    and "adj = buildAdjacencyList h (allowAsyncCycles opts) modList"
  shows "cycleReports opts h modules =
     collect (reportOf opts h modList adj ts
                (flagInvalidComponents (\<lambda>i. getResource h (modList ! i)) (sccs ts)))
       [0..<length modList]"
  using assms by (simp add: cycleReports_def Let_def)

lemma cycleReports_eq:
  assumes d: "distinct (List.map_filter (\<lambda>m. m) modules)"
    and t: "tarjan (length adj) adj = Some ts"
    and m: "modList = createSortedModuleList h modules"
    and a: "adj = buildAdjacencyList h (allowAsyncCycles opts) modList"
  shows "cycleReports opts h modules =
     Some (List.map_filter (reportAt opts h modList adj ts) [0..<length modList])"
proof -
  have dm: "distinct modList" unfolding m by (rule distinct_createSortedModuleList [OF d])
  have len: "length adj = length modList" unfolding a by simp
  show ?thesis
    unfolding cycleReports_unfold [OF t m a]
    by (rule collect_Some) (simp add: reportOf_eq [OF t dm len])
qed

lemma reportAt_props:
  assumes t: "tarjan (length adj) adj = Some ts" and i: "i < length adj"
    and r: "reportAt opts h modList adj ts i = Some (m, cyc)"
  shows "m = modList ! i \<and> reportable opts h modList adj i \<and>
     (\<exists>k<length (sccs ts). i \<in> set (sccs ts ! k) \<and>
        \<not> flagInvalidComponents (\<lambda>j. getResource h (modList ! j)) (sccs ts) ! k \<and>
        hd cyc = i \<and> last cyc = i \<and> distinct (butlast cyc) \<and> set cyc \<subseteq> set (sccs ts ! k) \<and>
        3 \<le> length cyc)"
proof -
  let ?res = "\<lambda>j. getResource h (modList ! j)"
  from comp_of [OF t i] obtain k where
    k: "k < length (sccs ts)" "i \<in> set (sccs ts ! k)" "sccId ts ! i = int k" by auto
  have rep: "reportable opts h modList adj i" using r by (simp add: reportAt_def split: if_splits)
  then have valid: "\<not> flagInvalidComponents ?res (sccs ts) ! k"
    using reportable_iff [OF t k(1,2), where opts = opts and h = h and modList = modList] by simp
  then have "cyclic adj ?res (set (sccs ts ! k))" using flag_iff_cyclic [OF t k(1), of ?res] by simp
  then have "2 \<le> card (set (sccs ts ! k))" by (simp add: cyclic_def)
  from cycleFrom_scc [OF comp_facts(1) [OF t k(1)] this k(2)] obtain c where
    c: "cycleFrom adj i (set (sccs ts ! k)) = Some (Some c)"
      "hd c = i \<and> last c = i \<and> distinct (butlast c) \<and> set c \<subseteq> set (sccs ts ! k) \<and> 3 \<le> length c"
    by blast
  have "m = modList ! i" "cyc = c" using r rep c(1) k(3) by (simp_all add: reportAt_def)
  then show ?thesis using rep k valid c(2) by blast
qed

lemma reportAt_Some:
  assumes t: "tarjan (length adj) adj = Some ts" and i: "i < length adj"
    and rep: "reportable opts h modList adj i"
  shows "\<exists>cyc. reportAt opts h modList adj ts i = Some (modList ! i, cyc)"
  using rep by (simp add: reportAt_def)

lemma filter_map_filter_single:
  assumes "distinct xs" "i \<in> set xs" "g i = Some y" "P y"
    and "\<And>j z. j \<in> set xs \<Longrightarrow> j \<noteq> i \<Longrightarrow> g j = Some z \<Longrightarrow> \<not> P z"
  shows "filter P (List.map_filter g xs) = [y]"
  using assms
proof (induction xs)
  case Nil
  then show ?case by simp
next
  case (Cons x xs)
  show ?case
  proof (cases "x = i")
    case True
    then have "i \<notin> set xs" using Cons.prems(1) by simp
    have "filter P (List.map_filter g xs) = []"
    proof -
      have "\<not> P z" if "z \<in> set (List.map_filter g xs)" for z
      proof -
        from that obtain j where "j \<in> set xs" "g j = Some z" using in_map_filterD by force
        then show ?thesis using Cons.prems(5) [of j z] \<open>i \<notin> set xs\<close> by auto
      qed
      then show ?thesis by (simp add: filter_empty_conv)
    qed
    then show ?thesis using True Cons.prems(3,4) by (simp add: List.map_filter_def)
  next
    case False
    then have i: "i \<in> set xs" using Cons.prems(2) by simp
    have ih: "filter P (List.map_filter g xs) = [y]"
      using Cons.IH [OF _ i Cons.prems(3,4)] Cons.prems(1,5) by auto
    show ?thesis
    proof (cases "g x")
      case None
      then show ?thesis using ih by (simp add: List.map_filter_def)
    next
      case (Some z)
      then have "\<not> P z" using Cons.prems(5) [of x z] False by simp
      then show ?thesis using ih Some by (simp add: List.map_filter_def)
    qed
  qed
qed

lemma one_report:
  assumes d: "distinct (List.map_filter (\<lambda>m. m) modules)"
    and t: "tarjan (length adj) adj = Some ts"
    and m: "modList = createSortedModuleList h modules"
    and a: "adj = buildAdjacencyList h (allowAsyncCycles opts) modList"
    and k: "k < length (sccs ts)"
      "\<not> flagInvalidComponents (\<lambda>j. getResource h (modList ! j)) (sccs ts) ! k"
    and i: "i \<in> set (sccs ts ! k)" "eligible opts h (modList ! i)"
    and rs: "cycleReports opts h modules = Some rs"
  shows "\<exists>cyc. filter (\<lambda>r. fst r = modList ! i) rs = [(modList ! i, cyc)] \<and>
           hd cyc = i \<and> last cyc = i \<and> distinct (butlast cyc) \<and> set cyc \<subseteq> set (sccs ts ! k) \<and>
           3 \<le> length cyc"
proof -
  have dm: "distinct modList" unfolding m by (rule distinct_createSortedModuleList [OF d])
  have len: "length adj = length modList" unfolding a by simp
  have il: "i < length adj" using comp_facts(4) [OF t k(1)] i(1) by auto
  have rep: "reportable opts h modList adj i"
    using reportable_iff [OF t k(1) i(1), where opts = opts and h = h and modList = modList]
      i(2) k(2) by simp
  from reportAt_Some [OF t il rep] obtain cyc where
    c: "reportAt opts h modList adj ts i = Some (modList ! i, cyc)" by blast
  from reportAt_props [OF t il c] obtain k' where
    k': "k' < length (sccs ts)" "i \<in> set (sccs ts ! k')"
      "hd cyc = i \<and> last cyc = i \<and> distinct (butlast cyc) \<and> set cyc \<subseteq> set (sccs ts ! k') \<and>
       3 \<le> length cyc"
    by blast
  have "k' = k"
  proof (rule ccontr)
    assume "k' \<noteq> k"
    then have "set (sccs ts ! k') \<inter> set (sccs ts ! k) = {}"
      using concat_disjoint [OF tarjan_facts(4) [OF t] k'(1) k(1)] by simp
    then show False using k'(2) i(1) by auto
  qed
  have rs': "rs = List.map_filter (reportAt opts h modList adj ts) [0..<length modList]"
    using cycleReports_eq [OF d t m a] rs by simp
  have "filter (\<lambda>r. fst r = modList ! i) rs = [(modList ! i, cyc)]"
    unfolding rs'
  proof (rule filter_map_filter_single)
    show "distinct [0..<length modList]" by simp
    show "i \<in> set [0..<length modList]" using il len by simp
    show "reportAt opts h modList adj ts i = Some (modList ! i, cyc)" by (rule c)
    show "fst (modList ! i, cyc) = modList ! i" by simp
    show "fst z \<noteq> modList ! i"
      if "j \<in> set [0..<length modList]" "j \<noteq> i" "reportAt opts h modList adj ts j = Some z" for j z
    proof -
      have jl: "j < length adj" using that(1) len by simp
      obtain m' c' where z: "z = (m', c')" by (cases z)
      from reportAt_props [OF t jl that(3) [unfolded z]] have "m' = modList ! j" by blast
      moreover have "modList ! j \<noteq> modList ! i"
        using dm that(1,2) il len by (simp add: nth_eq_iff_index_eq)
      ultimately show ?thesis using z by simp
    qed
  qed
  then show ?thesis using k'(3) \<open>k' = k\<close> by blast
qed

lemma map_filter_Cons:
  "List.map_filter g (x # xs) = (case g x of None \<Rightarrow> List.map_filter g xs | Some y \<Rightarrow> y # List.map_filter g xs)"
  by (simp add: List.map_filter_def split: option.splits)

lemma map_filter_Nil [simp]: "List.map_filter g [] = []"
  by (simp add: List.map_filter_def)

lemma filter_map_filter_cong:
  assumes "\<And>j z. j \<in> set xs \<Longrightarrow> P z \<Longrightarrow> g j = Some z \<longleftrightarrow> g' j = Some z"
  shows "filter P (List.map_filter g xs) = filter P (List.map_filter g' xs)"
  using assms
proof (induction xs)
  case Nil
  then show ?case by simp
next
  case (Cons x xs)
  have ih: "filter P (List.map_filter g xs) = filter P (List.map_filter g' xs)"
    using Cons by simp
  have hd: "P z \<Longrightarrow> g x = Some z \<longleftrightarrow> g' x = Some z" for z using Cons.prems [of x z] by simp
  show ?case
  proof (cases "g x")
    case None
    show ?thesis
    proof (cases "g' x")
      case N': None
      then show ?thesis using None ih by (simp add: map_filter_Cons)
    next
      case (Some z')
      then have "\<not> P z'" using hd [of z'] None by auto
      then show ?thesis using None Some ih by (simp add: map_filter_Cons)
    qed
  next
    case (Some z)
    show ?thesis
    proof (cases "P z")
      case True
      then have "g' x = Some z" using hd [of z] Some by simp
      then show ?thesis using Some ih by (simp add: map_filter_Cons)
    next
      case False
      show ?thesis
      proof (cases "g' x")
        case None
        then show ?thesis using Some False ih by (simp add: map_filter_Cons)
      next
        case S': (Some z')
        then have "\<not> P z'" using hd [of z'] Some False by auto
        then show ?thesis using Some S' False ih by (simp add: map_filter_Cons)
      qed
    qed
  qed
qed

lemma reportOf_fst:
  "reportOf opts h modList adj ts invalid j = Some (Some z) \<Longrightarrow> fst z = modList ! j"
  by (auto simp: reportOf_def Let_def split: option.splits if_splits)

lemma reportOf_cong:
  assumes "\<And>r. getResource h (modList ! j) = Some r \<Longrightarrow>
             exclude_test opts' r = exclude_test opts r \<and> include_test opts' r = include_test opts r"
  shows "reportOf opts' h modList adj ts invalid j = reportOf opts h modList adj ts invalid j"
  using assms by (auto simp: reportOf_def Let_def split: option.splits)

lemma cycleReports_total:
  assumes t: "tarjan (length adj) adj = Some ts"
    and m: "modList = createSortedModuleList h modules"
    and a: "adj = buildAdjacencyList h (allowAsyncCycles opts) modList"
  shows "cycleReports opts h modules =
     Some (List.map_filter
             (\<lambda>j. the (reportOf opts h modList adj ts
                          (flagInvalidComponents (\<lambda>i. getResource h (modList ! i)) (sccs ts)) j))
             [0..<length modList])"
proof -
  have len: "length adj = length modList" unfolding a by simp
  show ?thesis
    unfolding cycleReports_unfold [OF t m a]
  proof (rule collect_Some)
    fix x
    assume "x \<in> set [0..<length modList]"
    then have "x < length modList" by simp
    from reportOf_total [OF t len this, where opts = opts and h = h and
        invalid = "flagInvalidComponents (\<lambda>i. getResource h (modList ! i)) (sccs ts)"]
    show "reportOf opts h modList adj ts
            (flagInvalidComponents (\<lambda>i. getResource h (modList ! i)) (sccs ts)) x =
          Some (the (reportOf opts h modList adj ts
            (flagInvalidComponents (\<lambda>i. getResource h (modList ! i)) (sccs ts)) x))"
      by auto
  qed
qed

lemma reportOf_onDetected [simp]:
  "reportOf (opts\<lparr>onDetected := x\<rparr>) h modList adj ts invalid =
     reportOf opts h modList adj ts invalid"
  by (rule ext) (simp add: reportOf_def Let_def split: option.splits)

lemma cycleReports_onDetected [simp]:
  "cycleReports (opts\<lparr>onDetected := x\<rparr>) h modules = cycleReports opts h modules"
  by (simp add: cycleReports_def Let_def split: option.splits)

lemma handOffs_onDetected [simp]:
  "handOffs (opts\<lparr>onDetected := x\<rparr>) h modules rs = handOffs opts h modules rs"
  by (simp add: handOffs_def relPaths_def split: option.splits)




lemma mset_map_filter:
  "mset xs = mset ys \<Longrightarrow> mset (List.map_filter g xs) = mset (List.map_filter g ys)"
  by (simp add: List.map_filter_def)

lemma map_filter_concat:
  "List.map_filter g (concat xss) = concat (map (List.map_filter g) xss)"
  by (induction xss) (simp_all add: List.map_filter_def)

lemma map_filter_None:
  "(\<And>x. x \<in> set xs \<Longrightarrow> g x = None) \<Longrightarrow> List.map_filter g xs = []"
  by (induction xs) (simp_all add: map_filter_Cons)

lemma componentReports_eq:
  assumes t: "tarjan (length adj) adj = Some ts" and k: "k < length (sccs ts)"
    and valid: "\<not> flagInvalidComponents (\<lambda>j. getResource h (modList ! j)) (sccs ts) ! k"
  shows "componentReports opts h modList adj (sccs ts ! k) =
     Some (List.map_filter (reportAt opts h modList adj ts)
             (sortIndicesByResource (\<lambda>i. getResource h (modList ! i)) (sccs ts ! k)))"
  unfolding componentReports_def
proof (rule collect_Some)
  fix x
  assume "x \<in> set (sortIndicesByResource (\<lambda>i. getResource h (modList ! i)) (sccs ts ! k))"
  then have "x \<in> set (sccs ts ! k)" by (simp add: sortIndicesByResource_def)
  then show "nodeReport opts h modList adj (set (sccs ts ! k)) x =
      Some (reportAt opts h modList adj ts x)"
    by (rule nodeReport_eq [OF t k _ valid])
qed

lemma cycleReports_refactored_eq:
  assumes t: "tarjan (length adj) adj = Some ts"
    and m: "modList = createSortedModuleList h modules"
    and a: "adj = buildAdjacencyList h (allowAsyncCycles opts) modList"
  shows "cycleReports_refactored opts h modules =
     Some (concat (map
       (\<lambda>k. if flagInvalidComponents (\<lambda>j. getResource h (modList ! j)) (sccs ts) ! k then []
            else List.map_filter (reportAt opts h modList adj ts)
                   (sortIndicesByResource (\<lambda>i. getResource h (modList ! i)) (sccs ts ! k)))
       [0..<length (sccs ts)]))"
proof -
  let ?inv = "flagInvalidComponents (\<lambda>j. getResource h (modList ! j)) (sccs ts)"
  have c: "computeStronglyConnectedComponents (length adj) adj = Some (sccs ts)"
    by (rule computeStronglyConnectedComponents_eq [OF t])
  have "cycleReports_refactored opts h modules =
      collectEach (\<lambda>k. if ?inv ! k then Some []
                        else componentReports opts h modList adj (sccs ts ! k))
        [0..<length (sccs ts)]"
    unfolding a m using c [unfolded a m] by (simp add: cycleReports_refactored_def Let_def)
  also have "\<dots> = Some (concat (map
       (\<lambda>k. if ?inv ! k then []
            else List.map_filter (reportAt opts h modList adj ts)
                   (sortIndicesByResource (\<lambda>i. getResource h (modList ! i)) (sccs ts ! k)))
       [0..<length (sccs ts)]))"
  proof (rule collectEach_Some)
    fix k
    assume "k \<in> set [0..<length (sccs ts)]"
    then have k: "k < length (sccs ts)" by simp
    show "(if ?inv ! k then Some [] else componentReports opts h modList adj (sccs ts ! k)) =
        Some (if ?inv ! k then []
              else List.map_filter (reportAt opts h modList adj ts)
                     (sortIndicesByResource (\<lambda>i. getResource h (modList ! i)) (sccs ts ! k)))"
      using componentReports_eq [OF t k, where opts = opts and h = h and modList = modList]
      by simp
  qed
  finally show ?thesis .
qed

lemma reports_same_mset:
  assumes d: "distinct (List.map_filter (\<lambda>m. m) modules)"
    and t: "tarjan (length adj) adj = Some ts"
    and m: "modList = createSortedModuleList h modules"
    and a: "adj = buildAdjacencyList h (allowAsyncCycles opts) modList"
    and rs: "cycleReports opts h modules = Some rs"
    and rs': "cycleReports_refactored opts h modules = Some rs'"
  shows "mset rs' = mset rs"
proof -
  let ?res = "\<lambda>j. getResource h (modList ! j)"
  let ?inv = "flagInvalidComponents ?res (sccs ts)"
  let ?g = "reportAt opts h modList adj ts"
  let ?F = "\<lambda>k. if ?inv ! k then [] else List.map_filter ?g (sortIndicesByResource ?res (sccs ts ! k))"
  note F = tarjan_facts [OF t]
  have len: "length adj = length modList" unfolding a by simp
  have e: "rs = List.map_filter ?g [0..<length modList]"
    using cycleReports_eq [OF d t m a] rs by simp
  have e': "rs' = concat (map ?F [0..<length (sccs ts)])"
    using cycleReports_refactored_eq [OF t m a] rs' by simp
  have "mset [0..<length modList] = mset (concat (sccs ts))"
    using F(4,5) len by (intro iffD1 [OF set_eq_iff_mset_eq_distinct]) (auto simp: lessThan_def)
  then have "mset rs = mset (List.map_filter ?g (concat (sccs ts)))"
    unfolding e by (rule mset_map_filter)
  also have "\<dots> = (\<Sum>c\<leftarrow>sccs ts. mset (List.map_filter ?g c))"
    by (simp add: map_filter_concat mset_concat comp_def)
  also have "\<dots> = (\<Sum>k\<leftarrow>[0..<length (sccs ts)]. mset (List.map_filter ?g (sccs ts ! k)))"
    by (subst (1) map_nth [of "sccs ts", symmetric]) (simp only: map_map comp_def)
  also have "\<dots> = (\<Sum>k\<leftarrow>[0..<length (sccs ts)]. mset (?F k))"
  proof (rule arg_cong [where f = sum_list], rule map_cong [OF refl])
    fix k
    assume "k \<in> set [0..<length (sccs ts)]"
    then have k: "k < length (sccs ts)" by simp
    show "mset (List.map_filter ?g (sccs ts ! k)) = mset (?F k)"
    proof (cases "?inv ! k")
      case True
      have "?g i = None" if "i \<in> set (sccs ts ! k)" for i
        using reportable_iff [OF t k that, where opts = opts and h = h and modList = modList] True
        by (simp add: reportAt_def)
      then have "List.map_filter ?g (sccs ts ! k) = []" by (rule map_filter_None)
      then show ?thesis using True by simp
    next
      case False
      have "mset (sccs ts ! k) = mset (sortIndicesByResource ?res (sccs ts ! k))"
        by (simp add: sortIndicesByResource_def)
      then show ?thesis using False mset_map_filter by auto
    qed
  qed
  also have "\<dots> = mset rs'" unfolding e' by (simp add: mset_concat comp_def)
  finally show ?thesis by simp
qed











lemma tarjan_components:
  assumes t: "tarjan (length adj) adj = Some ts"
  shows "set ` set (sccs ts) = {C. is_scc adj C}"
proof (intro equalityI subsetI)
  fix C
  assume "C \<in> set ` set (sccs ts)"
  then show "C \<in> {C. is_scc adj C}" using tarjan_facts(6) [OF t] by auto
next
  fix C
  assume "C \<in> {C. is_scc adj C}"
  then have c: "is_scc adj C" by simp
  then obtain i where i: "i \<in> C" "i < length adj" unfolding is_scc_def by blast
  then have "i \<in> set (concat (sccs ts))" using tarjan_facts(5) [OF t] by simp
  then obtain c' where c': "c' \<in> set (sccs ts)" "i \<in> set c'" by auto
  have "is_scc adj (set c')" using tarjan_facts(6) [OF t] c'(1) by blast
  then have "C = set c'" using is_scc_unique [OF c _ i(1) c'(2)] by simp
  then show "C \<in> set ` set (sccs ts)" using c'(1) by blast
qed



lemma reportAt_path:
  assumes t: "tarjan (length adj) adj = Some ts" and i: "i < length adj"
    and r: "reportAt opts h modList adj ts i = Some (m, cyc)"
  shows "Suc j < length cyc \<Longrightarrow> cyc ! Suc j \<in> set (adj ! (cyc ! j))"
proof -
  let ?res = "\<lambda>j. getResource h (modList ! j)"
  from comp_of [OF t i] obtain k where
    k: "k < length (sccs ts)" "i \<in> set (sccs ts ! k)" "sccId ts ! i = int k" by auto
  have rep: "reportable opts h modList adj i" using r by (simp add: reportAt_def split: if_splits)
  then have "\<not> flagInvalidComponents ?res (sccs ts) ! k"
    using reportable_iff [OF t k(1,2), where opts = opts and h = h and modList = modList] by simp
  then have "cyclic adj ?res (set (sccs ts ! k))" using flag_iff_cyclic [OF t k(1), of ?res] by simp
  then have "2 \<le> card (set (sccs ts ! k))" by (simp add: cyclic_def)
  from cycleFrom_scc [OF comp_facts(1) [OF t k(1)] this k(2)] obtain c where
    c: "findCycleFrom adj i (set (sccs ts ! k)) = Some (Some c)"
      "cycleFrom adj i (set (sccs ts ! k)) = Some (Some c)"
    by blast
  have "cyc = c" using r rep c(2) k(3) by (simp add: reportAt_def)
  then show "Suc j < length cyc \<Longrightarrow> cyc ! Suc j \<in> set (adj ! (cyc ! j))"
    using findCycleFrom_path [OF comp_facts(4) [OF t k(1)] k(2) c(1)] by simp
qed

lemma filter_single_mset:
  assumes "mset xs = mset ys" "filter P ys = [x]"
  shows "filter P xs = [x]"
proof -
  have "mset (filter P xs) = mset (filter P ys)" unfolding mset_filter assms(1) ..
  then have "mset (filter P xs) = {#x#}" unfolding assms(2) by simp
  then show ?thesis by (simp only: mset_single_iff)
qed

lemma one_report_cyclic:
  assumes d: "distinct (List.map_filter (\<lambda>m. m) modules)"
    and m: "modList = createSortedModuleList h modules"
    and a: "adj = buildAdjacencyList h (allowAsyncCycles opts) modList"
    and c: "cyclic adj (\<lambda>j. getResource h (modList ! j)) C"
    and i: "i \<in> C" "eligible opts h (modList ! i)"
    and rs: "cycleReports opts h modules = Some rs"
  shows "\<exists>cyc. filter (\<lambda>r. fst r = modList ! i) rs = [(modList ! i, cyc)] \<and>
           hd cyc = i \<and> last cyc = i \<and> distinct (butlast cyc) \<and> set cyc \<subseteq> C \<and>
           3 \<le> length cyc \<and> (\<forall>j. Suc j < length cyc \<longrightarrow> cyc ! Suc j \<in> set (adj ! (cyc ! j)))"
proof -
  let ?res = "\<lambda>j. getResource h (modList ! j)"
  obtain ts where t: "tarjan (length adj) adj = Some ts"
    using tarjan_built [of h "allowAsyncCycles opts" modList] a by auto
  have len: "length adj = length modList" unfolding a by simp
  have "C \<in> set ` set (sccs ts)" unfolding tarjan_components [OF t] using c by (simp add: cyclic_def)
  then obtain k where k: "k < length (sccs ts)" "set (sccs ts ! k) = C"
    by (auto simp: in_set_conv_nth)
  have v: "\<not> flagInvalidComponents ?res (sccs ts) ! k"
    using flag_iff_cyclic [OF t k(1), of ?res] c k(2) by simp
  have ik: "i \<in> set (sccs ts ! k)" using i(1) k(2) by simp
  from one_report [OF d t m a k(1) v ik i(2) rs] obtain cyc where
    f: "filter (\<lambda>r. fst r = modList ! i) rs = [(modList ! i, cyc)]"
    and p: "hd cyc = i" "last cyc = i" "distinct (butlast cyc)" "set cyc \<subseteq> set (sccs ts ! k)"
      "3 \<le> length cyc"
    by blast
  have rs': "rs = List.map_filter (reportAt opts h modList adj ts) [0..<length modList]"
    using cycleReports_eq [OF d t m a] rs by simp
  have "(modList ! i, cyc) \<in> set (filter (\<lambda>r. fst r = modList ! i) rs)" unfolding f by simp
  then have "(modList ! i, cyc) \<in> set rs" by simp
  then obtain j where j: "j \<in> set [0..<length modList]"
    "reportAt opts h modList adj ts j = Some (modList ! i, cyc)"
    unfolding rs' using in_map_filterD by force
  have jl: "j < length adj" using j(1) len by simp
  have e: "\<forall>n. Suc n < length cyc \<longrightarrow> cyc ! Suc n \<in> set (adj ! (cyc ! n))"
    using reportAt_path [OF t jl j(2)] by blast
  show ?thesis
    apply (rule exI [of _ cyc])
    using f p e k(2) by simp
qed



lemma findCycleFrom_cycle:
  assumes sub: "C \<subseteq> {..<length adj}" and st: "start \<in> C" and two: "2 \<le> card C"
    and reach: "\<forall>a\<in>C. \<forall>b\<in>C. (a, b) \<in> (comp_edges adj C)\<^sup>*"
  shows "\<exists>cyc. findCycleFrom adj start C = Some (Some cyc) \<and>
           cycleFrom adj start C = findCycleFrom adj start C \<and>
           hd cyc = start \<and> last cyc = start \<and> distinct (butlast cyc) \<and> set cyc \<subseteq> C \<and>
           3 \<le> length cyc \<and>
           (\<forall>j. Suc j < length cyc \<longrightarrow> cyc ! Suc j \<in> set (adj ! (cyc ! j)))"
proof -
  have "\<exists>b\<in>C. b \<noteq> start"
  proof (rule ccontr)
    assume "\<not> (\<exists>b\<in>C. b \<noteq> start)"
    then have "C \<subseteq> {start}" by auto
    then have "card C \<le> card {start}" by (intro card_mono) auto
    then show False using two by simp
  qed
  then obtain cyc where f: "findCycleFrom adj start C = Some (Some cyc)"
    using findCycleFrom_finds [OF sub st _ reach] by blast
  from findCycleFrom_result [OF sub st] f have
    p: "hd cyc = start" "last cyc = start" "distinct (butlast cyc)" "set cyc \<subseteq> C" "3 \<le> length cyc"
    by auto
  have e: "\<forall>j. Suc j < length cyc \<longrightarrow> cyc ! Suc j \<in> set (adj ! (cyc ! j))"
    using findCycleFrom_path [OF sub st f] by blast
  have c: "cycleFrom adj start C = findCycleFrom adj start C" using f by (simp add: cycleFrom_def)
  show ?thesis
    apply (rule exI [of _ cyc])
    using f c p e by simp
qed

section \<open>The claims\<close>

subsection \<open>C2: the components partition the index set\<close>

text \<open>
  Claim C2.  For every adjacency structure the strongly-connected-component computation
  returns (with a call stack that admits \<open>N\<close> nested activations), the refactored copy
  returns the same list, and the returned components partition \<open>0..N-1\<close>: every index
  lies in exactly one component, the union of the components is the whole index set, and
  no index is listed twice.
\<close>

theorem scc_partition:
  "\<exists>ts. tarjan (length adj) adj = Some ts \<and>
        computeStronglyConnectedComponents (length adj) adj = Some (sccs ts) \<and>
        (\<forall>i<length adj. \<exists>!k. k < length (sccs ts) \<and> i \<in> set (sccs ts ! k)) \<and>
        (\<Union>k<length (sccs ts). set (sccs ts ! k)) = {..<length adj} \<and>
        distinct (concat (sccs ts))"
proof -
  obtain ts where ts: "tarjan (length adj) adj = Some ts"
    using tarjan_total [of adj "length adj"] by auto
  from tarjan_partition [OF ts] have d: "distinct (concat (sccs ts))"
    and u: "set (concat (sccs ts)) = {..<length adj}" by simp_all
  have un: "(\<Union>k<length (sccs ts). set (sccs ts ! k)) = set (concat (sccs ts))"
  proof (rule set_eqI)
    fix x
    show "x \<in> (\<Union>k<length (sccs ts). set (sccs ts ! k)) \<longleftrightarrow> x \<in> set (concat (sccs ts))"
    proof
      assume "x \<in> (\<Union>k<length (sccs ts). set (sccs ts ! k))"
      then obtain k where "k < length (sccs ts)" "x \<in> set (sccs ts ! k)" by auto
      then show "x \<in> set (concat (sccs ts))" using nth_mem by fastforce
    next
      assume "x \<in> set (concat (sccs ts))"
      then obtain c where "c \<in> set (sccs ts)" "x \<in> set c" by auto
      then obtain k where "k < length (sccs ts)" "x \<in> set (sccs ts ! k)"
        by (metis in_set_conv_nth)
      then show "x \<in> (\<Union>k<length (sccs ts). set (sccs ts ! k))" by auto
    qed
  qed
  have ex1: "\<exists>!k. k < length (sccs ts) \<and> i \<in> set (sccs ts ! k)" if "i < length adj" for i
  proof -
    from that u un obtain k where k: "k < length (sccs ts)" "i \<in> set (sccs ts ! k)" by blast
    have "k' = k" if k': "k' < length (sccs ts)" "i \<in> set (sccs ts ! k')" for k'
    proof (rule ccontr)
      assume "k' \<noteq> k"
      with d k(1) k'(1) have "set (sccs ts ! k') \<inter> set (sccs ts ! k) = {}"
        by (intro concat_disjoint)
      with k(2) k'(2) show False by auto
    qed
    with k show ?thesis by blast
  qed
  show ?thesis
  proof (intro exI conjI)
    show "tarjan (length adj) adj = Some ts" by (rule ts)
    show "computeStronglyConnectedComponents (length adj) adj = Some (sccs ts)"
      by (rule computeStronglyConnectedComponents_eq [OF ts])
    show "\<forall>i<length adj. \<exists>!k. k < length (sccs ts) \<and> i \<in> set (sccs ts ! k)"
      using ex1 by blast
    show "(\<Union>k<length (sccs ts). set (sccs ts ! k)) = {..<length adj}"
      using un u by simp
    show "distinct (concat (sccs ts))" by (rule d)
  qed
qed

text \<open>The partition of a three-node graph, computed and then read off the theorem.\<close>

theorem scc_partition_witness:
  "map_option sccs (tarjan 3 [[1], [0], [1]]) = Some [[1, 0], [2]] \<and>
   computeStronglyConnectedComponents 3 [[1], [0], [1]] = Some [[1, 0], [2]] \<and>
   (\<exists>!k. k < length [[1, 0], [2::nat]] \<and> 2 \<in> set ([[1, 0], [2::nat]] ! k))"
proof -
  have e: "map_option sccs (tarjan 3 [[1], [0], [1]]) = Some [[1, 0], [2]]" by code_simp
  have l: "length [[1], [0], [1::nat]] = 3" by simp
  from scc_partition [of "[[1], [0], [1]]"] obtain ts where
    ts: "tarjan 3 [[1], [0], [1]] = Some ts"
      "computeStronglyConnectedComponents 3 [[1], [0], [1]] = Some (sccs ts)"
      "\<forall>i<3. \<exists>!k. k < length (sccs ts) \<and> i \<in> set (sccs ts ! k)"
    unfolding l by blast
  from e ts(1) have c: "sccs ts = [[1, 0], [2]]" by simp
  have "(2::nat) < 3" by simp
  with ts(3) have "\<exists>!k. k < length (sccs ts) \<and> 2 \<in> set (sccs ts ! k)" by blast
  then have "\<exists>!k. k < length [[1, 0], [2::nat]] \<and> 2 \<in> set ([[1, 0], [2::nat]] ! k)"
    unfolding c .
  moreover have "computeStronglyConnectedComponents 3 [[1], [0], [1]] = Some [[1, 0], [2]]"
    using ts(2) unfolding c .
  ultimately show ?thesis using e by (intro conjI)
qed

subsection \<open>C3: which components are invalid\<close>

text \<open>
  Claim C3.  A component is flagged invalid exactly when it has at most one member or
  one of its members is a module without resource; and no index occurs in its own
  adjacency list, whatever the dependency records say, so a module depending on itself
  is a component of size one and is flagged invalid.
\<close>

theorem component_validity:
  assumes "k < length comps" "i < length modList"
  shows "(flagInvalidComponents res comps ! k \<longleftrightarrow>
            length (comps ! k) \<le> 1 \<or> (\<exists>j\<in>set (comps ! k). res j = None)) \<and>
         i \<notin> set (buildAdjacencyList h a modList ! i)"
  using assms adj_entry [of i modList i h a]
  by (auto simp: flagInvalidComponents_def anyMissingResource_iff)

text \<open>
  A module with a dependency on itself: the record is dropped by \<open>getDeps\<close>, and a
  singleton component is flagged.
\<close>

theorem component_validity_witness:
  "getDeps selfHeap False 0 = [1] \<and>
   buildAdjacencyList selfHeap False [0, 1] = [[1], [0]] \<and>
   flagInvalidComponents (\<lambda>i. getResource selfHeap ([0, 1] ! i)) [[0], [1, 0]] = [True, False] \<and>
   0 \<notin> set (buildAdjacencyList selfHeap False [0, 1] ! 0)"
proof -
  have "getDeps selfHeap False 0 = [1]" by code_simp
  moreover have "buildAdjacencyList selfHeap False [0, 1] = [[1], [0]]" by code_simp
  moreover have "flagInvalidComponents (\<lambda>i. getResource selfHeap ([0, 1] ! i)) [[0], [1, 0]] = [True, False]"
    by code_simp
  moreover have "(0::nat) < length [[0::nat], [1, 0]]" "(0::nat) < length [0::nat, 1]" by simp_all
  ultimately show ?thesis
    using component_validity [of 0 "[[0], [1, 0]]" 0 "[0, 1]" "\<lambda>i. getResource selfHeap ([0, 1] ! i)" selfHeap False]
    by simp
qed

subsection \<open>C4: adjacency lists keep one entry for every surviving edge\<close>

text \<open>
  Claim C4, as amended.  The adjacency list of an index holds one entry for every kept
  dependency record whose module is in the module list, in the order of the records:
  read back as modules it is the list of kept dependencies restricted to the listed
  modules.  Nothing removes duplicates, so a module reached through several records
  occurs once for each of them.  Every entry is an index of the list other than the
  source's own.
\<close>

theorem adjacency_entry_per_edge:
  assumes "i < length modList"
  shows "map (\<lambda>j. modList ! j) (buildAdjacencyList h a modList ! i) =
           filter (\<lambda>t. t \<in> set modList) (getDeps h a (modList ! i)) \<and>
         (\<forall>j\<in>set (buildAdjacencyList h a modList ! i). j < length modList \<and> j \<noteq> i)"
  using assms adj_entry [OF assms] by (simp add: nth_buildAdjacencyList map_filter_idOf_back)

theorem adjacency_entry_per_edge_witness:
  "buildAdjacencyList dupHeap False [0, 1] ! 0 = [1, 1] \<and>
   map (\<lambda>j. [0, 1] ! j) (buildAdjacencyList dupHeap False [0, 1] ! 0) =
     filter (\<lambda>t. t \<in> set [0, 1]) (getDeps dupHeap False ([0, 1] ! 0))"
proof -
  have e: "buildAdjacencyList dupHeap False [0, 1] ! 0 = [1, 1]" by code_simp
  have h: "(0::nat) < length [0::nat, 1]" by simp
  from adjacency_entry_per_edge [OF h, of dupHeap False] e show ?thesis by blast
qed

text \<open>
  Claim C4 as stated fails: two records for the same module give the adjacency list
  \<open>[1, 1]\<close>.
\<close>

theorem adjacency_duplicates_counterexample:
  "\<not> distinct (buildAdjacencyList dupHeap False (createSortedModuleList dupHeap [Some 0, Some 1]) ! 0)"
  by code_simp

subsection \<open>C9: the depth of the recursion of strongconnect\<close>

text \<open>
  Claim C9, as amended.  The SCC computation is recursive in both copies, one nested
  activation of \<open>strongconnect\<close> (\<open>strongConnect\<close> in the refactored copy) for every tree
  edge.  A call stack that admits \<open>N\<close> nested activations is always enough for a graph
  of \<open>N\<close> modules, and on the chain of \<open>n\<close> modules nothing less than \<open>n\<close> is: the depth
  of the recursion is proportional to the module count.
\<close>

theorem recursion_depth:
  "(length adj \<le> d \<longrightarrow>
      tarjan d adj \<noteq> None \<and> computeStronglyConnectedComponents d adj \<noteq> None) \<and>
   (d < n \<longrightarrow>
      tarjan d (chain n) = None \<and> computeStronglyConnectedComponents d (chain n) = None)"
  using tarjan_total [of adj d] compute_total [of adj d] chain_tarjan_None [of d n]
    chain_compute_None [of d n]
  by auto

theorem recursion_depth_witness:
  "tarjan 4 (chain 4) \<noteq> None \<and> computeStronglyConnectedComponents 4 (chain 4) \<noteq> None \<and>
   tarjan 3 (chain 4) = None \<and> computeStronglyConnectedComponents 3 (chain 4) = None"
  using recursion_depth [of "chain 4" 4 4] recursion_depth [of "chain 4" 3 4]
  by (simp add: chain_def)

text \<open>
  Claim C9 as stated fails: on the chain of four modules the first call of either copy
  needs four nested activations and has no result within three.
\<close>

theorem recursion_depth_counterexample:
  "strongconnect 3 [[1], [2], [3], []] 0 (tarjan_init 4) = None \<and>
   strongconnect 4 [[1], [2], [3], []] 0 (tarjan_init 4) \<noteq> None \<and>
   strongConnect 3 [[1], [2], [3], []] 0 ((tarjan_init 4)\<lparr>sccId := []\<rparr>) = None \<and>
   strongConnect 4 [[1], [2], [3], []] 0 ((tarjan_init 4)\<lparr>sccId := []\<rparr>) \<noteq> None"
  by code_simp

subsection \<open>C1: one report for every eligible member of a cyclic component\<close>

text \<open>
  Claim C1.  The modules are supplied as a collection of distinct handles (a \<open>Set\<close> in
  webpack 5).  For every such input the SCC pass returns exactly the strongly connected
  components of the dependency graph and flags as invalid exactly those that are not
  cyclic (fewer than two members, or a member without resource).  For every cyclic
  component and every member whose resource passes the include test and not the exclude
  test, the reporting loop of \<open>src/index.js\<close> and that of the refactored copy each produce
  exactly one report for the member's module, with the same cycle: it starts and ends at
  the member, has at least three elements, its elements before the closing one are
  pairwise distinct, all of them are indices of that component, and each is followed by
  an entry of its adjacency list.
\<close>

theorem one_report_per_eligible_member:
  assumes "distinct (List.map_filter (\<lambda>m. m) modules)"
    and "modList = createSortedModuleList h modules"
    and "adj = buildAdjacencyList h (allowAsyncCycles opts) modList"
  shows "\<exists>ts rs rs'.
     tarjan (length adj) adj = Some ts \<and> cycleReports opts h modules = Some rs \<and>
     cycleReports_refactored opts h modules = Some rs' \<and>
     set ` set (sccs ts) = {C. is_scc adj C} \<and>
     (\<forall>k<length (sccs ts).
        flagInvalidComponents (\<lambda>j. getResource h (modList ! j)) (sccs ts) ! k \<longleftrightarrow>
        \<not> cyclic adj (\<lambda>j. getResource h (modList ! j)) (set (sccs ts ! k))) \<and>
     (\<forall>C i. cyclic adj (\<lambda>j. getResource h (modList ! j)) C \<and> i \<in> C \<and>
            eligible opts h (modList ! i) \<longrightarrow>
        (\<exists>cyc. filter (\<lambda>r. fst r = modList ! i) rs = [(modList ! i, cyc)] \<and>
               filter (\<lambda>r. fst r = modList ! i) rs' = [(modList ! i, cyc)] \<and>
               hd cyc = i \<and> last cyc = i \<and> distinct (butlast cyc) \<and> set cyc \<subseteq> C \<and>
               3 \<le> length cyc \<and>
               (\<forall>j. Suc j < length cyc \<longrightarrow> cyc ! Suc j \<in> set (adj ! (cyc ! j)))))"
proof -
  let ?res = "\<lambda>j. getResource h (modList ! j)"
  obtain ts where t: "tarjan (length adj) adj = Some ts"
    using tarjan_built [of h "allowAsyncCycles opts" modList] assms(3) by auto
  have rs: "cycleReports opts h modules =
      Some (List.map_filter (reportAt opts h modList adj ts) [0..<length modList])"
    (is "_ = Some ?rs")
    by (rule cycleReports_eq [OF assms(1) t assms(2,3)])
  from cycleReports_refactored_eq [OF t assms(2,3)]
  obtain rs' where rs': "cycleReports_refactored opts h modules = Some rs'" by blast
  have ms: "mset rs' = mset ?rs" by (rule reports_same_mset [OF assms(1) t assms(2,3) rs rs'])
  have cs: "set ` set (sccs ts) = {C. is_scc adj C}" by (rule tarjan_components [OF t])
  have fl: "\<forall>k<length (sccs ts).
        flagInvalidComponents ?res (sccs ts) ! k \<longleftrightarrow> \<not> cyclic adj ?res (set (sccs ts ! k))"
    using flag_iff_cyclic [OF t] by blast
  have P: "\<exists>cyc. filter (\<lambda>r. fst r = modList ! i) ?rs = [(modList ! i, cyc)] \<and>
               filter (\<lambda>r. fst r = modList ! i) rs' = [(modList ! i, cyc)] \<and>
               hd cyc = i \<and> last cyc = i \<and> distinct (butlast cyc) \<and> set cyc \<subseteq> C \<and>
               3 \<le> length cyc \<and>
               (\<forall>j. Suc j < length cyc \<longrightarrow> cyc ! Suc j \<in> set (adj ! (cyc ! j)))"
    if c: "cyclic adj ?res C \<and> i \<in> C \<and> eligible opts h (modList ! i)" for C i
  proof -
    from c have c1: "cyclic adj ?res C" and c2: "i \<in> C" and c3: "eligible opts h (modList ! i)"
      by simp_all
    from one_report_cyclic [OF assms c1 c2 c3 rs] obtain cyc where
      f: "filter (\<lambda>r. fst r = modList ! i) ?rs = [(modList ! i, cyc)]"
      and p: "hd cyc = i" "last cyc = i" "distinct (butlast cyc)" "set cyc \<subseteq> C" "3 \<le> length cyc"
        "\<forall>j. Suc j < length cyc \<longrightarrow> cyc ! Suc j \<in> set (adj ! (cyc ! j))"
      by blast
    have f': "filter (\<lambda>r. fst r = modList ! i) rs' = [(modList ! i, cyc)]"
      by (rule filter_single_mset [OF ms f])
    show ?thesis
      apply (rule exI [of _ cyc])
      apply (intro conjI f f' p)
      done
  qed
  show ?thesis
    apply (rule exI [of _ ts], rule exI [of _ ?rs], rule exI [of _ rs'])
    apply (intro conjI t rs rs' cs fl allI impI)
    apply (erule P)
    done
qed

text \<open>
  The three-cycle \<open>a \<rightarrow> b \<rightarrow> c \<rightarrow> a\<close> with an isolated module: the reports are
  computed, and the report of \<open>b\<close> is read off the theorem.
\<close>

theorem one_report_per_eligible_member_witness:
  "cycleReports defaultOptions cycHeap [Some 3, Some 1, None, Some 0, Some 2] =
     Some [(0, [0, 1, 2, 0]), (1, [1, 2, 0, 1]), (2, [2, 0, 1, 2])] \<and>
   (\<exists>cyc. filter (\<lambda>r. fst r = 1) [(0, [0, 1, 2, 0]), (1, [1, 2, 0, 1]), (2::nat, [2, 0, 1, 2::nat])] =
            [(1, cyc)] \<and>
          hd cyc = 1 \<and> last cyc = 1 \<and> distinct (butlast cyc) \<and> set cyc \<subseteq> {2, 1, 0} \<and>
          3 \<le> length cyc \<and> cyc ! 1 \<in> set ([[1], [2], [0], []] ! (cyc ! 0)))"
proof -
  let ?ms = "[Some 3, Some 1, None, Some 0, Some (2::nat)]"
  let ?res = "\<lambda>j. getResource cycHeap ([0, 1, 2, 3] ! j)"
  let ?adj = "[[1], [2], [0], [] :: nat list]"
  have d: "distinct (List.map_filter (\<lambda>m. m) ?ms)" by code_simp
  have ml: "createSortedModuleList cycHeap ?ms = [0, 1, 2, 3]" by code_simp
  have ad: "buildAdjacencyList cycHeap (allowAsyncCycles defaultOptions) [0, 1, 2, 3] = ?adj"
    by code_simp
  have tj: "map_option sccs (tarjan 4 ?adj) = Some [[2, 1, 0], [3]]" by code_simp
  have fl: "flagInvalidComponents ?res [[2, 1, 0], [3]] = [False, True]" by code_simp
  have el: "eligible defaultOptions cycHeap ([0, 1, 2, 3] ! 1)" by code_simp
  have cr: "cycleReports defaultOptions cycHeap ?ms =
      Some [(0, [0, 1, 2, 0]), (1, [1, 2, 0, 1]), (2, [2, 0, 1, 2])]" by code_simp
  from one_report_per_eligible_member [OF d ml [symmetric] ad [symmetric]]
  obtain ts rs rs' where all:
    "tarjan (length ?adj) ?adj = Some ts \<and>
     cycleReports defaultOptions cycHeap ?ms = Some rs \<and>
     cycleReports_refactored defaultOptions cycHeap ?ms = Some rs' \<and>
     set ` set (sccs ts) = {C. is_scc ?adj C} \<and>
     (\<forall>k<length (sccs ts).
        flagInvalidComponents ?res (sccs ts) ! k \<longleftrightarrow> \<not> cyclic ?adj ?res (set (sccs ts ! k))) \<and>
     (\<forall>C i. cyclic ?adj ?res C \<and> i \<in> C \<and> eligible defaultOptions cycHeap ([0, 1, 2, 3] ! i) \<longrightarrow>
        (\<exists>cyc. filter (\<lambda>r. fst r = [0, 1, 2, 3] ! i) rs = [([0, 1, 2, 3] ! i, cyc)] \<and>
               filter (\<lambda>r. fst r = [0, 1, 2, 3] ! i) rs' = [([0, 1, 2, 3] ! i, cyc)] \<and>
               hd cyc = i \<and> last cyc = i \<and> distinct (butlast cyc) \<and> set cyc \<subseteq> C \<and>
               3 \<le> length cyc \<and>
               (\<forall>j. Suc j < length cyc \<longrightarrow> cyc ! Suc j \<in> set (?adj ! (cyc ! j)))))"
    by (elim exE) (rule that)
  note t = all [THEN conjunct1]
  note r = all [THEN conjunct2, THEN conjunct1]
  note f = all [THEN conjunct2, THEN conjunct2, THEN conjunct2, THEN conjunct2, THEN conjunct1]
  note p = all [THEN conjunct2, THEN conjunct2, THEN conjunct2, THEN conjunct2, THEN conjunct2]
  have l4: "length ?adj = 4" by simp
  have s: "sccs ts = [[2, 1, 0], [3]]" using t [unfolded l4] tj by auto
  have "(0::nat) < length (sccs ts)" unfolding s by simp
  from f [THEN spec, THEN mp, OF this] have cy: "cyclic ?adj ?res (set [2, 1, 0])" unfolding s fl by simp
  have i: "(1::nat) \<in> set [2, 1, 0]" by simp
  from p [THEN spec, THEN spec, THEN mp, OF conjI [OF cy conjI [OF i el]]] obtain cyc where
    call: "filter (\<lambda>r. fst r = [0, 1, 2, 3] ! 1) rs = [([0, 1, 2, 3] ! 1, cyc)] \<and>
      filter (\<lambda>r. fst r = [0, 1, 2, 3] ! 1) rs' = [([0, 1, 2, 3] ! 1, cyc)] \<and>
      hd cyc = 1 \<and> last cyc = 1 \<and> distinct (butlast cyc) \<and> set cyc \<subseteq> set [2, 1, 0] \<and>
      3 \<le> length cyc \<and>
      (\<forall>j. Suc j < length cyc \<longrightarrow> cyc ! Suc j \<in> set (?adj ! (cyc ! j)))"
    by (elim exE) (rule that)
  from call have
    c: "filter (\<lambda>r. fst r = [0, 1, 2, 3] ! 1) rs = [([0, 1, 2, 3] ! 1, cyc)]"
      "hd cyc = 1" "last cyc = 1" "distinct (butlast cyc)" "set cyc \<subseteq> set [2, 1, 0]"
      "3 \<le> length cyc"
    and q: "\<forall>j. Suc j < length cyc \<longrightarrow> cyc ! Suc j \<in> set (?adj ! (cyc ! j))"
    by blast+
  have rs: "rs = [(0, [0, 1, 2, 0]), (1, [1, 2, 0, 1]), (2, [2, 0, 1, 2])]" using r cr by simp
  have c1: "filter (\<lambda>r. fst r = 1) [(0, [0, 1, 2, 0]), (1, [1, 2, 0, 1]), (2::nat, [2, 0, 1, 2::nat])] =
      [(1, cyc)]" using c(1) unfolding rs by simp
  have c5: "set cyc \<subseteq> {2, 1, 0}" using c(5) by simp
  have q0: "cyc ! 1 \<in> set (?adj ! (cyc ! 0))" using q [rule_format, of 0] c(6) by simp
  show ?thesis
    apply (rule conjI [OF cr])
    apply (rule exI [of _ cyc])
    apply (intro conjI c1 c(2,3,4) c5 c(6) q0)
    done
qed

subsection \<open>C8: the fallback of the cycle extractor is not reached\<close>

text \<open>
  Claim C8.  When the members of a component of at least two indices are mutually
  reachable along edges inside the component, the depth-first search from any member
  \<open>start\<close> returns a simple cycle back to \<open>start\<close>: a list that starts and ends at
  \<open>start\<close>, whose elements before the closing one are pairwise distinct, whose elements
  all belong to the component, and in which every element is followed by one of the
  entries of its adjacency list.  So the reporting loop takes neither the two-node
  fallback nor the skip; and this is the case for every component of at least two
  members that the SCC computation returns.
\<close>

theorem fallback_unreachable:
  "(C \<subseteq> {..<length adj} \<and> start \<in> C \<and> 2 \<le> card C \<and>
      (\<forall>a\<in>C. \<forall>b\<in>C. (a, b) \<in> (comp_edges adj C)\<^sup>*) \<longrightarrow>
      (\<exists>cyc. findCycleFrom adj start C = Some (Some cyc) \<and>
             cycleFrom adj start C = findCycleFrom adj start C \<and>
             hd cyc = start \<and> last cyc = start \<and> distinct (butlast cyc) \<and> set cyc \<subseteq> C \<and>
             3 \<le> length cyc \<and>
             (\<forall>j. Suc j < length cyc \<longrightarrow> cyc ! Suc j \<in> set (adj ! (cyc ! j))))) \<and>
   (\<forall>ts. tarjan (length adj) adj = Some ts \<longrightarrow>
      (\<forall>c\<in>set (sccs ts). 2 \<le> length c \<longrightarrow>
         (\<forall>i\<in>set c.
            \<exists>cyc. findCycleFrom adj i (set c) = Some (Some cyc) \<and>
                  cycleFrom adj i (set c) = findCycleFrom adj i (set c) \<and>
                  hd cyc = i \<and> last cyc = i \<and> distinct (butlast cyc) \<and> set cyc \<subseteq> set c \<and>
                  3 \<le> length cyc \<and>
                  (\<forall>j. Suc j < length cyc \<longrightarrow> cyc ! Suc j \<in> set (adj ! (cyc ! j))))))"
proof (intro conjI impI allI ballI)
  assume a: "C \<subseteq> {..<length adj} \<and> start \<in> C \<and> 2 \<le> card C \<and>
      (\<forall>a\<in>C. \<forall>b\<in>C. (a, b) \<in> (comp_edges adj C)\<^sup>*)"
  then have 1: "C \<subseteq> {..<length adj}" and 2: "start \<in> C" and 3: "2 \<le> card C"
    and 4: "\<forall>a\<in>C. \<forall>b\<in>C. (a, b) \<in> (comp_edges adj C)\<^sup>*" by simp_all
  show "\<exists>cyc. findCycleFrom adj start C = Some (Some cyc) \<and>
             cycleFrom adj start C = findCycleFrom adj start C \<and>
             hd cyc = start \<and> last cyc = start \<and> distinct (butlast cyc) \<and> set cyc \<subseteq> C \<and>
             3 \<le> length cyc \<and>
             (\<forall>j. Suc j < length cyc \<longrightarrow> cyc ! Suc j \<in> set (adj ! (cyc ! j)))"
    by (rule findCycleFrom_cycle [OF 1 2 3 4])
next
  fix ts c i
  assume t: "tarjan (length adj) adj = Some ts" and c: "c \<in> set (sccs ts)" "2 \<le> length c"
    and i: "i \<in> set c"
  have scc: "is_scc adj (set c)" using tarjan_facts(6) [OF t c(1)] .
  have sub: "set c \<subseteq> {..<length adj}" using scc by (simp add: is_scc_def)
  have "distinct c" using tarjan_facts(4) [OF t] c(1) by (simp add: distinct_concat_iff)
  then have two: "2 \<le> card (set c)" using c(2) by (simp add: distinct_card)
  have reach: "\<forall>a\<in>set c. \<forall>b\<in>set c. (a, b) \<in> (comp_edges adj (set c))\<^sup>*"
    using is_scc_comp_reach [OF scc] by blast
  show "\<exists>cyc. findCycleFrom adj i (set c) = Some (Some cyc) \<and>
             cycleFrom adj i (set c) = findCycleFrom adj i (set c) \<and>
             hd cyc = i \<and> last cyc = i \<and> distinct (butlast cyc) \<and> set cyc \<subseteq> set c \<and>
             3 \<le> length cyc \<and>
             (\<forall>j. Suc j < length cyc \<longrightarrow> cyc ! Suc j \<in> set (adj ! (cyc ! j)))"
    by (rule findCycleFrom_cycle [OF sub i two reach])
qed

text \<open>
  A component where the search backtracks: from \<open>0\<close> it walks \<open>0, 1, 2\<close>, finds nothing
  new at \<open>2\<close>, pops it, and closes the cycle \<open>0, 1, 0\<close>.
\<close>

theorem fallback_unreachable_witness:
  "findCycleFrom [[1, 2], [2, 0], [1]] 0 {0, 1, 2} = Some (Some [0, 1, 0]) \<and>
   (\<exists>cyc. findCycleFrom [[1, 2], [2, 0], [1]] 0 {0, 1, 2} = Some (Some cyc) \<and>
          cycleFrom [[1, 2], [2, 0], [1]] 0 {0, 1, 2} =
            findCycleFrom [[1, 2], [2, 0], [1]] 0 {0, 1, 2} \<and>
          hd cyc = 0 \<and> last cyc = 0 \<and> distinct (butlast cyc) \<and> set cyc \<subseteq> {0, 1, 2} \<and>
          3 \<le> length cyc \<and> cyc ! 1 \<in> set ([[1, 2], [2, 0], [1]] ! (cyc ! 0)) \<and>
          cyc ! 2 \<in> set ([[1, 2], [2, 0], [1]] ! (cyc ! 1)))"
proof -
  let ?adj = "[[1, 2], [2, 0], [1::nat]]"
  let ?C = "{0, 1, 2::nat}"
  let ?E = "comp_edges ?adj ?C"
  have e: "findCycleFrom ?adj 0 ?C = Some (Some [0, 1, 0])" by code_simp
  have e01: "(0, 1) \<in> ?E\<^sup>*" and e12: "(1, 2) \<in> ?E\<^sup>*"
    and e10: "(1, 0) \<in> ?E\<^sup>*" and e21: "(2, 1) \<in> ?E\<^sup>*"
    by (rule r_into_rtrancl, simp add: comp_edges_def)+
  have to1: "(a, 1) \<in> ?E\<^sup>*" if "a \<in> ?C" for a
  proof -
    from that consider "a = 0" | "a = 1" | "a = 2" by blast
    then show ?thesis using e01 e21 by cases simp_all
  qed
  have from1: "(1, b) \<in> ?E\<^sup>*" if "b \<in> ?C" for b
  proof -
    from that consider "b = 0" | "b = 1" | "b = 2" by blast
    then show ?thesis using e10 e12 by cases simp_all
  qed
  have "(a, b) \<in> ?E\<^sup>*" if "a \<in> ?C" "b \<in> ?C" for a b
    using rtrancl_trans [OF to1 [OF that(1)] from1 [OF that(2)]] .
  then have r: "\<forall>a\<in>?C. \<forall>b\<in>?C. (a, b) \<in> ?E\<^sup>*" by blast
  have h1: "?C \<subseteq> {..<length ?adj}" by simp
  have h2: "(0::nat) \<in> ?C" by simp
  have h3: "2 \<le> card ?C" by simp
  note h = conjI [OF h1 conjI [OF h2 conjI [OF h3 r]]]
  from fallback_unreachable [of ?C ?adj 0, THEN conjunct1, THEN mp, OF h]
  obtain cyc where p: "findCycleFrom ?adj 0 ?C = Some (Some cyc)"
    "cycleFrom ?adj 0 ?C = findCycleFrom ?adj 0 ?C"
    "hd cyc = 0" "last cyc = 0" "distinct (butlast cyc)" "set cyc \<subseteq> ?C" "3 \<le> length cyc"
    and q: "\<forall>j. Suc j < length cyc \<longrightarrow> cyc ! Suc j \<in> set (?adj ! (cyc ! j))"
    by blast
  have q0: "cyc ! 1 \<in> set (?adj ! (cyc ! 0))" using q [rule_format, of 0] p(7) by simp
  have q1: "cyc ! 2 \<in> set (?adj ! (cyc ! 1))" using q [rule_format, of 1] p(7) by (simp add: numeral_2_eq_2)
  show ?thesis
    apply (rule conjI [OF e])
    apply (rule exI [of _ cyc])
    apply (intro conjI p q0 q1)
    done
qed

subsection \<open>C6: the filters are applied to the start module only\<close>

text \<open>
  Claim C6.  The reports of a module depend on the include and exclude tests only through
  their verdict on that module's own resource: two option sets that agree there (and on
  \<open>allowAsyncCycles\<close>) yield the same reports for the module, whatever they say about
  the resources of the other nodes of the reported cycle.  An excluded node inside the
  cycle does not suppress the report.
\<close>

theorem filters_test_the_start_module_only:
  assumes "allowAsyncCycles opts' = allowAsyncCycles opts"
    and "\<And>r. getResource h m = Some r \<Longrightarrow>
           exclude_test opts' r = exclude_test opts r \<and> include_test opts' r = include_test opts r"
  shows "\<exists>rs rs'. cycleReports opts h modules = Some rs \<and> cycleReports opts' h modules = Some rs' \<and>
           filter (\<lambda>p. fst p = m) rs' = filter (\<lambda>p. fst p = m) rs"
proof -
  define modList where "modList = createSortedModuleList h modules"
  define adj where "adj = buildAdjacencyList h (allowAsyncCycles opts) modList"
  have adj': "adj = buildAdjacencyList h (allowAsyncCycles opts') modList"
    unfolding adj_def assms(1) ..
  obtain ts where t: "tarjan (length adj) adj = Some ts"
    using tarjan_built [of h "allowAsyncCycles opts" modList] adj_def by auto
  let ?inv = "flagInvalidComponents (\<lambda>i. getResource h (modList ! i)) (sccs ts)"
  let ?g = "\<lambda>j. the (reportOf opts h modList adj ts ?inv j)"
  let ?g' = "\<lambda>j. the (reportOf opts' h modList adj ts ?inv j)"
  have len: "length adj = length modList" unfolding adj_def by simp
  have rs: "cycleReports opts h modules = Some (List.map_filter ?g [0..<length modList])"
    by (rule cycleReports_total [OF t modList_def adj_def])
  have rs': "cycleReports opts' h modules = Some (List.map_filter ?g' [0..<length modList])"
    by (rule cycleReports_total [OF t modList_def adj'])
  have "filter (\<lambda>p. fst p = m) (List.map_filter ?g' [0..<length modList]) =
      filter (\<lambda>p. fst p = m) (List.map_filter ?g [0..<length modList])"
  proof (rule filter_map_filter_cong)
    fix j and z :: "handle \<times> nat list"
    assume j: "j \<in> set [0..<length modList]" and z: "fst z = m"
    then have jl: "j < length modList" by simp
    obtain y where y: "reportOf opts h modList adj ts ?inv j = Some y"
      using reportOf_total [OF t len jl, where opts = opts and h = h and invalid = ?inv] by auto
    obtain y' where y': "reportOf opts' h modList adj ts ?inv j = Some y'"
      using reportOf_total [OF t len jl, where opts = opts' and h = h and invalid = ?inv] by auto
    show "?g' j = Some z \<longleftrightarrow> ?g j = Some z"
    proof (cases "modList ! j = m")
      case True
      have "reportOf opts' h modList adj ts ?inv j = reportOf opts h modList adj ts ?inv j"
        by (rule reportOf_cong) (use assms(2) True in simp)
      then show ?thesis by simp
    next
      case False
      have "?g j \<noteq> Some z" using reportOf_fst [of opts h modList adj ts ?inv j z] y z False by auto
      moreover have "?g' j \<noteq> Some z"
        using reportOf_fst [of opts' h modList adj ts ?inv j z] y' z False by auto
      ultimately show ?thesis by simp
    qed
  qed
  with rs rs' show ?thesis by simp
qed

text \<open>
  With \<open>b\<close> excluded, \<open>b\<close> gets no report of its own, and \<open>a\<close> still gets the cycle
  \<open>a \<rightarrow> b \<rightarrow> a\<close> through the excluded module.
\<close>

theorem filters_test_the_start_module_only_witness:
  "cycleReports defaultOptions pairHeap [Some 0, Some 1] = Some [(0, [0, 1, 0]), (1, [1, 0, 1])] \<and>
   cycleReports excludeB pairHeap [Some 0, Some 1] = Some [(0, [0, 1, 0])] \<and>
   getResource pairHeap 1 = Some ''b'' \<and> exclude_test excludeB ''b'' \<and>
   (\<exists>rs rs'. cycleReports defaultOptions pairHeap [Some 0, Some 1] = Some rs \<and>
       cycleReports excludeB pairHeap [Some 0, Some 1] = Some rs' \<and>
       filter (\<lambda>p. fst p = 0) rs' = filter (\<lambda>p. fst p = 0) rs)"
proof -
  have a: "allowAsyncCycles excludeB = allowAsyncCycles defaultOptions"
    by (simp add: excludeB_def)
  have r0: "getResource pairHeap 0 = Some ''a''" by code_simp
  have b: "exclude_test excludeB r = exclude_test defaultOptions r \<and>
      include_test excludeB r = include_test defaultOptions r"
    if "getResource pairHeap 0 = Some r" for r
  proof -
    have "r = ''a''" using that r0 by simp
    then show ?thesis by (simp add: excludeB_def defaultOptions_def)
  qed
  have e1: "cycleReports defaultOptions pairHeap [Some 0, Some 1] =
      Some [(0, [0, 1, 0]), (1, [1, 0, 1])]" by code_simp
  have e2: "cycleReports excludeB pairHeap [Some 0, Some 1] = Some [(0, [0, 1, 0])]" by code_simp
  have e3: "getResource pairHeap 1 = Some ''b''" by code_simp
  have e4: "exclude_test excludeB ''b''" by (simp add: excludeB_def)
  from filters_test_the_start_module_only [OF a b, where modules = "[Some 0, Some 1]"] e1 e2 e3 e4
  show ?thesis by blast
qed

subsection \<open>C7: a throwing callback does not stop the reporting loop\<close>



subsection \<open>C10: the two implementations agree up to the order of the reports\<close>




subsection \<open>C5: the order in which modules and dependencies are supplied\<close>




end
